theory Spec2Isabelle
  imports Complex_Main
begin

section \<open>JavaScript values as the scheduler service sees them\<close>

text \<open>
  A JavaScript number is an IEEE double: a finite value, one of the two infinities, or
  \<open>NaN\<close>. The scheduler only compares numbers and takes minima and maxima, which are
  exact on doubles, so a finite double is modelled by the real it denotes.
\<close>

datatype jsnum = NaN | NegInf | Fin real | PosInf

text \<open>The relational operators of the language: every comparison with \<open>NaN\<close> is false.\<close>

definition num_lt :: "jsnum \<Rightarrow> jsnum \<Rightarrow> bool" where
  "num_lt a b =
     (case (a, b) of
        (Fin x, Fin y) \<Rightarrow> x < y
      | (NegInf, Fin _) \<Rightarrow> True
      | (NegInf, PosInf) \<Rightarrow> True
      | (Fin _, PosInf) \<Rightarrow> True
      | _ \<Rightarrow> False)"

definition num_ge :: "jsnum \<Rightarrow> jsnum \<Rightarrow> bool" where
  "num_ge a b = (a \<noteq> NaN \<and> b \<noteq> NaN \<and> \<not> num_lt a b)"

definition num_le :: "jsnum \<Rightarrow> jsnum \<Rightarrow> bool" where
  "num_le a b = num_ge b a"

definition num_gt :: "jsnum \<Rightarrow> jsnum \<Rightarrow> bool" where
  "num_gt a b = num_lt b a"

text \<open>\<open>Math.max\<close> and \<open>Math.min\<close> on two numbers: \<open>NaN\<close> if either argument is.\<close>

definition Math_max :: "jsnum \<Rightarrow> jsnum \<Rightarrow> jsnum" where
  "Math_max a b = (if a = NaN \<or> b = NaN then NaN else if num_lt a b then b else a)"

definition Math_min :: "jsnum \<Rightarrow> jsnum \<Rightarrow> jsnum" where
  "Math_min a b = (if a = NaN \<or> b = NaN then NaN else if num_lt b a then b else a)"

text \<open>
  What \<open>JSON.parse\<close> returns: an object is the list of its own properties (keys
  distinct, as in a parsed object).
\<close>

datatype json =
    JNull
  | JBool bool
  | JNum jsnum
  | JStr string
  | JArr "json list"
  | JObj "(string \<times> json) list"

datatype error =
    SyntaxError
  | TypeError
  | CastError
  | ValidationError
  | NetworkError

text \<open>
  The built-ins of the runtime that the service calls and that are not part of the
  repository. \<open>JSON_parse\<close> returns \<open>None\<close> where \<open>JSON.parse\<close> throws a
  SyntaxError; \<open>Date_parse\<close> returns \<open>None\<close> where \<open>new Date(s)\<close> is an invalid
  date; \<open>Date_addDays t n\<close> is the time value of a date \<open>d\<close> with time value \<open>t\<close>
  after \<open>d.setDate(d.getDate() + n)\<close>, \<open>None\<close> when that date is invalid.
\<close>

record runtime =
  JSON_parse :: "string \<Rightarrow> json option"
  String_trim :: "string \<Rightarrow> string"
  StringToNumber :: "string \<Rightarrow> jsnum"
  NumberToString :: "jsnum \<Rightarrow> string"
  Date_parse :: "string \<Rightarrow> int option"
  Date_addDays :: "int \<Rightarrow> jsnum \<Rightarrow> int option"

text \<open>Truthiness, which decides \<open>a || b\<close>.\<close>

fun truthy :: "json \<Rightarrow> bool" where
  "truthy JNull = False"
| "truthy (JBool b) = b"
| "truthy (JNum n) = (n \<noteq> NaN \<and> n \<noteq> Fin 0)"
| "truthy (JStr s) = (s \<noteq> [])"
| "truthy (JArr xs) = True"
| "truthy (JObj kvs) = True"

text \<open>
  \<open>js_or v d\<close> is \<open>v || d\<close> for a property read \<open>v\<close> (\<open>None\<close> is \<open>undefined\<close>).
\<close>

definition js_or :: "json option \<Rightarrow> json \<Rightarrow> json" where
  "js_or v d = (case v of None \<Rightarrow> d | Some x \<Rightarrow> if truthy x then x else d)"

text \<open>
  Conversion to a string. A parsed object has no callable property of its own, so an
  object with an own \<open>toString\<close> key cannot be converted (TypeError); every other
  object prints as \<open>[object Object]\<close>. An array joins its elements with commas,
  \<open>null\<close> printing as the empty string.
\<close>

fun ToString :: "runtime \<Rightarrow> json \<Rightarrow> error + string"
  and Array_join :: "runtime \<Rightarrow> json list \<Rightarrow> error + string" where
  "ToString rt JNull = Inr ''null''"
| "ToString rt (JBool b) = Inr (if b then ''true'' else ''false'')"
| "ToString rt (JNum n) = Inr (NumberToString rt n)"
| "ToString rt (JStr s) = Inr s"
| "ToString rt (JArr xs) = Array_join rt xs"
| "ToString rt (JObj kvs) =
     (if ''toString'' \<in> fst ` set kvs then Inl TypeError else Inr ''[object Object]'')"
| "Array_join rt [] = Inr []"
| "Array_join rt (x # xs) =
     (case (if x = JNull then Inr [] else ToString rt x) of
        Inl e \<Rightarrow> Inl e
      | Inr s \<Rightarrow>
          (if xs = [] then Inr s
           else (case Array_join rt xs of
                   Inl e \<Rightarrow> Inl e
                 | Inr t \<Rightarrow> Inr (s @ '','' @ t))))"

text \<open>Conversion to a number, as \<open>Math.min\<close> and \<open>Math.max\<close> apply it.\<close>

definition ToNumber :: "runtime \<Rightarrow> json \<Rightarrow> error + jsnum" where
  "ToNumber rt v =
     (case v of
        JNull \<Rightarrow> Inr (Fin 0)
      | JBool b \<Rightarrow> Inr (Fin (if b then 1 else 0))
      | JNum n \<Rightarrow> Inr n
      | JStr s \<Rightarrow> Inr (StringToNumber rt s)
      | JArr xs \<Rightarrow>
          (case Array_join rt xs of Inl e \<Rightarrow> Inl e | Inr s \<Rightarrow> Inr (StringToNumber rt s))
      | JObj kvs \<Rightarrow>
          (if ''toString'' \<in> fst ` set kvs then Inl TypeError else Inr NaN))"

text \<open>
  Reading one of the eight properties of the analysis off a parsed value that is not
  \<open>null\<close>. None of the eight names is defined on a built-in prototype, so the read
  is \<open>undefined\<close> unless the value is an object holding the key.
\<close>

definition getProp :: "json \<Rightarrow> string \<Rightarrow> json option" where
  "getProp v k = (case v of JObj kvs \<Rightarrow> map_of kvs k | _ \<Rightarrow> None)"

definition bindE :: "error + 'a \<Rightarrow> ('a \<Rightarrow> error + 'b) \<Rightarrow> error + 'b" where
  "bindE m f = (case m of Inl e \<Rightarrow> Inl e | Inr x \<Rightarrow> f x)"

section \<open>The scoring client's parser (parseAIResponse)\<close>

record analysis =
  priorityScore :: jsnum
  complexityScore :: jsnum
  urgencyFactors :: "json list"
  delayRiskFactors :: "json list"
  estimatedDuration :: jsnum
  successProbability :: jsnum
  similarCasesCount :: jsnum
  reasoning :: json

definition startsWith :: "string \<Rightarrow> string \<Rightarrow> bool" where
  "startsWith p s = (take (length p) s = p)"

text \<open>
  \<open>aiResponse.replace(/```json\n?|\n?```/g, '')\<close>: scanning from the left, at each
  position the first alternative (the fence with its language tag and an optional
  newline) is tried before the second (an optional newline and a bare fence).
\<close>

fun stripFences :: "string \<Rightarrow> string" where
  "stripFences [] = []"
| "stripFences (c # cs) =
     (if startsWith (''```json'' @ [CHR 0x0A]) (c # cs) then stripFences (drop 7 cs)
      else if startsWith ''```json'' (c # cs) then stripFences (drop 6 cs)
      else if startsWith (CHR 0x0A # ''```'') (c # cs) then stripFences (drop 3 cs)
      else if startsWith ''```'' (c # cs) then stripFences (drop 2 cs)
      else c # stripFences cs)"

definition defaultAnalysis :: analysis where
  "defaultAnalysis =
     \<lparr> priorityScore = Fin 50,
       complexityScore = Fin 50,
       urgencyFactors = [JStr ''Analysis parsing failed''],
       delayRiskFactors = [JStr ''Unable to determine''],
       estimatedDuration = Fin 30,
       successProbability = Fin 50,
       similarCasesCount = Fin 0,
       reasoning = JStr ''Default analysis due to parsing error'' \<rparr>"

definition arrayOrEmpty :: "json option \<Rightarrow> json list" where
  "arrayOrEmpty v = (case v of Some (JArr xs) \<Rightarrow> xs | _ \<Rightarrow> [])"

text \<open>
  The object literal of the \<open>try\<close> block, built from the parsed value. Reading a
  property of \<open>null\<close> and a failed conversion to a number both throw a TypeError.
\<close>

definition normalizeAnalysis :: "runtime \<Rightarrow> json \<Rightarrow> error + analysis" where
  "normalizeAnalysis rt v =
     (if v = JNull then Inl TypeError
      else
        bindE (ToNumber rt (js_or (getProp v ''priorityScore'') (JNum (Fin 50)))) (\<lambda>ps.
        bindE (ToNumber rt (js_or (getProp v ''complexityScore'') (JNum (Fin 50)))) (\<lambda>cs.
        bindE (ToNumber rt (js_or (getProp v ''estimatedDuration'') (JNum (Fin 30)))) (\<lambda>ed.
        bindE (ToNumber rt (js_or (getProp v ''successProbability'') (JNum (Fin 50)))) (\<lambda>sp.
        bindE (ToNumber rt (js_or (getProp v ''similarCasesCount'') (JNum (Fin 0)))) (\<lambda>sc.
        Inr \<lparr> priorityScore = Math_max (Fin 0) (Math_min (Fin 100) ps),
              complexityScore = Math_max (Fin 0) (Math_min (Fin 100) cs),
              urgencyFactors = arrayOrEmpty (getProp v ''urgencyFactors''),
              delayRiskFactors = arrayOrEmpty (getProp v ''delayRiskFactors''),
              estimatedDuration = Math_max (Fin 1) ed,
              successProbability = Math_max (Fin 0) (Math_min (Fin 100) sp),
              similarCasesCount = Math_max (Fin 0) sc,
              reasoning = js_or (getProp v ''reasoning'') (JStr ''AI analysis completed'') \<rparr>))))))"

text \<open>
  The whole parser. Its argument is the content of the model's message, \<open>None\<close> when
  the message has none (\<open>null\<close>). Whatever is thrown inside the \<open>try\<close> block (the
  TypeError of \<open>replace\<close> on \<open>null\<close>, a SyntaxError of \<open>JSON.parse\<close>, a TypeError
  of the object literal) is caught and answered with the default analysis.
\<close>

definition parseAIResponse :: "runtime \<Rightarrow> string option \<Rightarrow> analysis" where
  "parseAIResponse rt aiResponse =
     (case aiResponse of
        None \<Rightarrow> defaultAnalysis
      | Some text \<Rightarrow>
          (case JSON_parse rt (String_trim rt (stripFences text)) of
             None \<Rightarrow> defaultAnalysis
           | Some v \<Rightarrow>
               (case normalizeAnalysis rt v of
                  Inl e \<Rightarrow> defaultAnalysis
                | Inr a \<Rightarrow> a)))"

section \<open>The case document and the case store\<close>

datatype status =
    pending_assignment
  | assigned
  | in_progress
  | under_review
  | awaiting_hearing
  | in_court
  | completed
  | dismissed
  | settled
  | appealed

datatype priority = Low | Medium | High | Urgent | Critical

datatype impact = ImpactLow | ImpactMedium | ImpactHigh | ImpactCritical

datatype noteCategory =
  general | strategy | evidence | client_communication | court_update

text \<open>
  A date object holds a time value in milliseconds, or is an invalid date. A date field
  of a document is \<open>None\<close> when it is \<open>null\<close> or absent.
\<close>

datatype jsdate = InvalidDate | DateAt int

record caseNote =
  content :: string
  createdBy :: "nat option"
  category :: noteCategory
  isPrivate :: bool

text \<open>
  The analysis sub-record of a case. A number path is \<open>None\<close> when the document holds
  no value there (\<open>undefined\<close>).
\<close>

record aiAnalysisRec =
  ai_complexityScore :: "jsnum option"
  ai_urgencyFactors :: "json list"
  ai_delayRiskFactors :: "json list"
  ai_estimatedDuration :: "jsnum option"
  ai_similarCasesCount :: "jsnum option"
  ai_successProbability :: "jsnum option"
  lastAnalyzed :: "int option"

record delayInfoRec =
  isDelayed :: bool
  delayDays :: int
  delayImpact :: impact

text \<open>
  The fields of a case that the scheduler reads or writes. An assignment to a path of a
  document casts the value to the type of the path; a value that cannot be cast (\<open>NaN\<close>
  for a number path, an invalid date for a date path) is not stored, and the document
  remembers the failed cast (\<open>castFailed\<close>) until it is validated.
\<close>

record caseDoc =
  caseId :: nat
  caseNumber :: string
  status :: status
  priority :: priority
  c_priorityScore :: jsnum
  hearingDate :: "jsdate option"
  expectedCompletionDate :: "jsdate option"
  aiAnalysis :: aiAnalysisRec
  delayInfo :: delayInfoRec
  caseNotes :: "caseNote list"
  updatedAt :: int
  castFailed :: bool

text \<open>
  The collaborators of the service. \<open>getAIAnalysis d\<close> is the text the model returns for
  the summary of case \<open>d\<close>, or the error thrown while the summary is prepared or the
  model is called. \<open>findOk\<close> and \<open>writeOk\<close> say whether the store answers a query
  and accepts the write of a document. \<open>generateCaseNumber\<close> is the number the
  pre-save hook composes from the year and the count of that year's cases.
\<close>

record world =
  getAIAnalysis :: "caseDoc \<Rightarrow> error + string option"
  findOk :: bool
  writeOk :: "nat \<Rightarrow> bool"
  generateCaseNumber :: "int \<Rightarrow> caseDoc list \<Rightarrow> string"

definition msPerDay :: int where
  "msPerDay = 1000 * 60 * 60 * 24"

subsection \<open>updateDelayInfo and the pre-save hook\<close>

definition impactOf :: "int \<Rightarrow> impact" where
  "impactOf days =
     (if days > 180 then ImpactCritical
      else if days > 90 then ImpactHigh
      else if days > 30 then ImpactMedium
      else ImpactLow)"

text \<open>
  The two checks of \<open>updateDelayInfo\<close>, each returning the pair of locals
  \<open>(isDelayed, delayDays)\<close> it leaves. A comparison with an invalid date is false.
\<close>

definition checkCompletion :: "int \<Rightarrow> caseDoc \<Rightarrow> bool \<times> int" where
  "checkCompletion now d =
     (case expectedCompletionDate d of
        Some (DateAt t) \<Rightarrow>
          (if now > t then (True, (now - t) div msPerDay) else (False, 0))
      | _ \<Rightarrow> (False, 0))"

definition checkHearing :: "int \<Rightarrow> caseDoc \<Rightarrow> bool \<times> int \<Rightarrow> bool \<times> int" where
  "checkHearing now d acc =
     (case hearingDate d of
        Some (DateAt h) \<Rightarrow>
          (if now > h \<and> status d = awaiting_hearing
           then (True, max (snd acc) ((now - h) div msPerDay))
           else acc)
      | _ \<Rightarrow> acc)"

definition updateDelayInfo :: "int \<Rightarrow> caseDoc \<Rightarrow> caseDoc" where
  "updateDelayInfo now d =
     (let r = checkHearing now d (checkCompletion now d)
      in d \<lparr> delayInfo :=
               \<lparr> isDelayed = fst r, delayDays = snd r, delayImpact = impactOf (snd r) \<rparr> \<rparr>)"

definition pre_save :: "world \<Rightarrow> int \<Rightarrow> caseDoc list \<Rightarrow> caseDoc \<Rightarrow> caseDoc" where
  "pre_save w now store d =
     updateDelayInfo now
       (if caseNumber d = [] then d \<lparr> caseNumber := generateCaseNumber w now store \<rparr> else d)"

text \<open>
  The delay rule in the words of the specification, to compare \<open>updateDelayInfo\<close> with:
  the days by which the expected completion date has passed, and the days by which the
  hearing date has passed while the case is still awaiting its hearing.
\<close>

definition completionDelay :: "int \<Rightarrow> caseDoc \<Rightarrow> int option" where
  "completionDelay now d =
     (case expectedCompletionDate d of
        Some (DateAt t) \<Rightarrow> if t < now then Some ((now - t) div msPerDay) else None
      | _ \<Rightarrow> None)"

definition hearingDelay :: "int \<Rightarrow> caseDoc \<Rightarrow> int option" where
  "hearingDelay now d =
     (case hearingDate d of
        Some (DateAt h) \<Rightarrow>
          if h < now \<and> status d = awaiting_hearing then Some ((now - h) div msPerDay) else None
      | _ \<Rightarrow> None)"

definition delayDays_spec :: "int \<Rightarrow> caseDoc \<Rightarrow> int" where
  "delayDays_spec now d =
     (case (completionDelay now d, hearingDelay now d) of
        (Some a, Some b) \<Rightarrow> max a b
      | (Some a, None) \<Rightarrow> a
      | (None, Some b) \<Rightarrow> b
      | (None, None) \<Rightarrow> 0)"

subsection \<open>Validation and save\<close>

text \<open>
  The validators the schema declares on the paths the scheduler writes, and on the case
  number. A note needs a non-empty \<open>content\<close> and a \<open>createdBy\<close> (both are
  \<open>required: true\<close>); the scores lie between \<open>min: 0\<close> and \<open>max: 100\<close>, where
  the document holds one; a number path holds no \<open>NaN\<close> and a date path no invalid
  date; and a cast that failed at an assignment fails the validation. The validators of
  the paths the scheduler never writes are left out, so a document that fails here fails
  the schema's validation.
\<close>

definition validateNote :: "caseNote \<Rightarrow> bool" where
  "validateNote n = (content n \<noteq> [] \<and> createdBy n \<noteq> None)"

definition inRange :: "jsnum \<Rightarrow> bool" where
  "inRange n = (num_ge n (Fin 0) \<and> num_le n (Fin 100))"

definition inRangeIfSet :: "jsnum option \<Rightarrow> bool" where
  "inRangeIfSet v = (case v of None \<Rightarrow> True | Some n \<Rightarrow> inRange n)"

definition validateCase :: "caseDoc \<Rightarrow> bool" where
  "validateCase d =
     (\<not> castFailed d
      \<and> caseNumber d \<noteq> []
      \<and> inRange (c_priorityScore d)
      \<and> inRangeIfSet (ai_complexityScore (aiAnalysis d))
      \<and> inRangeIfSet (ai_successProbability (aiAnalysis d))
      \<and> ai_estimatedDuration (aiAnalysis d) \<noteq> Some NaN
      \<and> ai_similarCasesCount (aiAnalysis d) \<noteq> Some NaN
      \<and> expectedCompletionDate d \<noteq> Some InvalidDate
      \<and> hearingDate d \<noteq> Some InvalidDate
      \<and> list_all validateNote (caseNotes d))"

text \<open>
  Writing a document: it replaces the stored document with its id, or is added when the
  store holds none.
\<close>

definition putDoc :: "caseDoc \<Rightarrow> caseDoc list \<Rightarrow> caseDoc list" where
  "putDoc d store =
     (if caseId d \<in> set (map caseId store)
      then map (\<lambda>x. if caseId x = caseId d then d else x) store
      else store @ [d])"

text \<open>
  \<open>caseDoc.save()\<close>: validation runs first. A valid document gets its \<open>updatedAt\<close>
  from the timestamps of the schema when it is new or was \<open>modified\<close> by the caller,
  then passes the pre-save hook of the schema and is written.
\<close>

definition save ::
  "world \<Rightarrow> int \<Rightarrow> bool \<Rightarrow> caseDoc \<Rightarrow> caseDoc list \<Rightarrow> error + caseDoc list" where
  "save w now modified d store =
     (if \<not> validateCase d then Inl ValidationError
      else if \<not> writeOk w (caseId d) then Inl NetworkError
      else
        (let stamped =
               (if modified \<or> caseId d \<notin> set (map caseId store)
                then d \<lparr> updatedAt := now \<rparr> else d)
         in Inr (putDoc (pre_save w now store stamped) store)))"

section \<open>The update step (updateCaseWithAIAnalysis)\<close>

definition priorityFromScore :: "jsnum \<Rightarrow> priority" where
  "priorityFromScore s =
     (if num_ge s (Fin 90) then Critical
      else if num_ge s (Fin 75) then Urgent
      else if num_ge s (Fin 60) then High
      else if num_ge s (Fin 40) then Medium
      else Low)"

text \<open>
  The cast of a number at an assignment: \<open>NaN\<close> is refused.
\<close>

definition castNumber :: "jsnum \<Rightarrow> jsnum option" where
  "castNumber n = (if n = NaN then None else Some n)"

text \<open>
  The assignments up to the note: score, label, the analysis sub-record, and the expected
  completion date when none is set or the case is \<open>assigned\<close>. A score that cannot be
  cast leaves the old score; the sub-record is replaced as a whole, so a number of it that
  cannot be cast leaves its path without a value; a completion date that is invalid
  leaves the old date.
\<close>

definition applyAnalysis :: "runtime \<Rightarrow> int \<Rightarrow> caseDoc \<Rightarrow> analysis \<Rightarrow> caseDoc" where
  "applyAnalysis rt now d a =
     (let d1 = d \<lparr> c_priorityScore :=
                     (case castNumber (priorityScore a) of
                        None \<Rightarrow> c_priorityScore d
                      | Some n \<Rightarrow> n),
                   priority := priorityFromScore (priorityScore a),
                   aiAnalysis :=
                     \<lparr> ai_complexityScore = castNumber (complexityScore a),
                       ai_urgencyFactors = urgencyFactors a,
                       ai_delayRiskFactors = delayRiskFactors a,
                       ai_estimatedDuration = castNumber (estimatedDuration a),
                       ai_similarCasesCount = castNumber (similarCasesCount a),
                       ai_successProbability = castNumber (successProbability a),
                       lastAnalyzed = Some now \<rparr>,
                   castFailed :=
                     (castFailed d
                      \<or> priorityScore a = NaN \<or> complexityScore a = NaN
                      \<or> estimatedDuration a = NaN \<or> similarCasesCount a = NaN
                      \<or> successProbability a = NaN) \<rparr>
      in if expectedCompletionDate d1 = None \<or> status d1 = assigned
         then (case Date_addDays rt now (estimatedDuration a) of
                 None \<Rightarrow> d1 \<lparr> castFailed := True \<rparr>
               | Some t \<Rightarrow> d1 \<lparr> expectedCompletionDate := Some (DateAt t) \<rparr>)
         else d1)"

text \<open>
  The template literal of the note. The score is a number; the reasoning is whatever
  truthy value the response held, converted to a string.
\<close>

definition noteContent :: "runtime \<Rightarrow> analysis \<Rightarrow> error + string" where
  "noteContent rt a =
     bindE (ToString rt (reasoning a)) (\<lambda>r.
     Inr (''AI Analysis: Priority Score '' @ NumberToString rt (priorityScore a)
            @ ''/100. '' @ r))"

definition systemNote :: "string \<Rightarrow> caseNote" where
  "systemNote c = \<lparr> content = c, createdBy = None, category = general, isPrivate = False \<rparr>"

definition updateCaseWithAIAnalysis ::
  "runtime \<Rightarrow> world \<Rightarrow> int \<Rightarrow> caseDoc \<Rightarrow> analysis \<Rightarrow> caseDoc list \<Rightarrow> error + caseDoc list" where
  "updateCaseWithAIAnalysis rt w now d a store =
     bindE (noteContent rt a) (\<lambda>c.
     save w now True
       ((applyAnalysis rt now d a) \<lparr> caseNotes := caseNotes d @ [systemNote c] \<rparr>) store)"

section \<open>Queries on the case store\<close>

text \<open>
  The filters the service passes to \<open>Case.find\<close>, over the paths it queries. An operand
  of a date path is written in the source as a date or as a string.
\<close>

datatype operand = QDate int | QString string

datatype clause =
    LastAnalyzedExists bool
  | LastAnalyzedLt operand
  | StatusIn "status list"
  | StatusNin "status list"
  | PriorityScoreGte jsnum
  | IsDelayedIs bool
  | DelayDaysGte int
  | HearingDateLte operand

datatype query = Cond clause | AllOf "query list" | AnyOf "query list"

text \<open>
  Before a filter is sent, every operand is cast to the type the schema gives its path.
  A string operand of a date path is cast with \<open>new Date(s)\<close>; a string that is not a
  date cannot be cast, and the query is rejected with a CastError.
\<close>

definition castDate :: "runtime \<Rightarrow> operand \<Rightarrow> int option" where
  "castDate rt v = (case v of QDate t \<Rightarrow> Some t | QString s \<Rightarrow> Date_parse rt s)"

definition clauseCastOk :: "runtime \<Rightarrow> clause \<Rightarrow> bool" where
  "clauseCastOk rt c =
     (case c of
        LastAnalyzedLt v \<Rightarrow> castDate rt v \<noteq> None
      | HearingDateLte v \<Rightarrow> castDate rt v \<noteq> None
      | _ \<Rightarrow> True)"

fun castOk :: "runtime \<Rightarrow> query \<Rightarrow> bool" where
  "castOk rt (Cond c) = clauseCastOk rt c"
| "castOk rt (AllOf qs) = list_all (castOk rt) qs"
| "castOk rt (AnyOf qs) = list_all (castOk rt) qs"

text \<open>
  Matching a document against a cast filter. A comparison on a date path matches only a
  document that holds a date there.
\<close>

definition matchClause :: "runtime \<Rightarrow> clause \<Rightarrow> caseDoc \<Rightarrow> bool" where
  "matchClause rt c d =
     (case c of
        LastAnalyzedExists b \<Rightarrow> ((lastAnalyzed (aiAnalysis d) \<noteq> None) = b)
      | LastAnalyzedLt v \<Rightarrow>
          (case (lastAnalyzed (aiAnalysis d), castDate rt v) of
             (Some t, Some u) \<Rightarrow> t < u
           | _ \<Rightarrow> False)
      | StatusIn ss \<Rightarrow> status d \<in> set ss
      | StatusNin ss \<Rightarrow> status d \<notin> set ss
      | PriorityScoreGte n \<Rightarrow> num_ge (c_priorityScore d) n
      | IsDelayedIs b \<Rightarrow> (isDelayed (delayInfo d) = b)
      | DelayDaysGte n \<Rightarrow> delayDays (delayInfo d) \<ge> n
      | HearingDateLte v \<Rightarrow>
          (case (hearingDate d, castDate rt v) of
             (Some (DateAt h), Some u) \<Rightarrow> h \<le> u
           | _ \<Rightarrow> False))"

fun matches :: "runtime \<Rightarrow> query \<Rightarrow> caseDoc \<Rightarrow> bool" where
  "matches rt (Cond c) d = matchClause rt c d"
| "matches rt (AllOf qs) d = list_all (\<lambda>q. matches rt q d) qs"
| "matches rt (AnyOf qs) d = list_ex (\<lambda>q. matches rt q d) qs"

definition Case_find :: "runtime \<Rightarrow> world \<Rightarrow> query \<Rightarrow> caseDoc list \<Rightarrow> error + caseDoc list" where
  "Case_find rt w q store =
     (if \<not> castOk rt q then Inl CastError
      else if \<not> findOk w then Inl NetworkError
      else Inr (filter (matches rt q) store))"

definition terminalStatuses :: "status list" where
  "terminalStatuses = [completed, dismissed, settled]"

subsection \<open>The case selector (getCasesForAnalysis)\<close>

text \<open>
  The third alternative compares \<open>aiAnalysis.lastAnalyzed\<close> with the operand
  \<open>'$updatedAt'\<close>, which in a filter is a string, not a reference to the field.
\<close>

definition analysisQuery :: "int \<Rightarrow> query" where
  "analysisQuery now =
     AllOf
       [ AnyOf
           [ Cond (LastAnalyzedExists False),
             Cond (LastAnalyzedLt (QDate (now - 24 * 60 * 60 * 1000))),
             AllOf
               [ Cond (StatusIn [assigned, in_progress, awaiting_hearing]),
                 Cond (LastAnalyzedLt (QString ''$updatedAt'')) ] ],
         Cond (StatusNin terminalStatuses) ]"

definition getCasesForAnalysis ::
  "runtime \<Rightarrow> world \<Rightarrow> int \<Rightarrow> caseDoc list \<Rightarrow> error + caseDoc list" where
  "getCasesForAnalysis rt w now store =
     bindE (Case_find rt w (analysisQuery now) store) (\<lambda>cs. Inr (take 20 cs))"

subsection \<open>The urgent-cases query (getUrgentCases)\<close>

definition urgentQuery :: "int \<Rightarrow> query" where
  "urgentQuery now =
     AllOf
       [ AnyOf
           [ Cond (PriorityScoreGte (Fin 80)),
             AllOf [Cond (IsDelayedIs True), Cond (DelayDaysGte 30)],
             Cond (HearingDateLte (QDate (now + 7 * 24 * 60 * 60 * 1000))) ],
         Cond (StatusNin terminalStatuses) ]"

text \<open>\<open>sort({ priorityScore: -1 })\<close>, as a stable insertion sort.\<close>

fun insertDesc :: "caseDoc \<Rightarrow> caseDoc list \<Rightarrow> caseDoc list" where
  "insertDesc d [] = [d]"
| "insertDesc d (x # xs) =
     (if num_lt (c_priorityScore d) (c_priorityScore x) then x # insertDesc d xs
      else d # x # xs)"

definition sortByScoreDesc :: "caseDoc list \<Rightarrow> caseDoc list" where
  "sortByScoreDesc xs = foldr insertDesc xs []"

text \<open>\<open>limit(n)\<close>: a limit of 0 is no limit.\<close>

definition limitTo :: "nat \<Rightarrow> 'a list \<Rightarrow> 'a list" where
  "limitTo n xs = (if n = 0 then xs else take n xs)"

definition getUrgentCases ::
  "runtime \<Rightarrow> world \<Rightarrow> nat \<Rightarrow> int \<Rightarrow> caseDoc list \<Rightarrow> error + caseDoc list" where
  "getUrgentCases rt w limit now store =
     bindE (Case_find rt w (urgentQuery now) store) (\<lambda>cs. Inr (limitTo limit (sortByScoreDesc cs)))"

section \<open>The batch orchestrator and the hourly run\<close>

datatype outcome = Analyzed | Failed error

datatype event =
    Skipped
  | SelectionFailed error
  | NoCases
  | BatchStart "nat list"
  | CaseDone nat outcome
  | Delay nat
  | Completed

text \<open>
  \<open>analyzeSingleCase\<close>: the whole body is inside a \<open>try\<close>, so an error of the scoring
  call or of the update is caught and the store is left as it was.
\<close>

definition analyzeSingleCase ::
  "runtime \<Rightarrow> world \<Rightarrow> int \<Rightarrow> caseDoc \<Rightarrow> caseDoc list \<Rightarrow> caseDoc list \<times> outcome" where
  "analyzeSingleCase rt w now d store =
     (case getAIAnalysis w d of
        Inl e \<Rightarrow> (store, Failed e)
      | Inr aiResponse \<Rightarrow>
          (case updateCaseWithAIAnalysis rt w now d (parseAIResponse rt aiResponse) store of
             Inl e \<Rightarrow> (store, Failed e)
           | Inr store' \<Rightarrow> (store', Analyzed)))"

text \<open>
  \<open>processCaseBatch\<close> starts one analysis per case of the batch and waits until all have
  settled. The analyses work on different documents; they are run here in list order.
\<close>

fun processCaseBatch ::
  "runtime \<Rightarrow> world \<Rightarrow> int \<Rightarrow> caseDoc list \<Rightarrow> caseDoc list \<Rightarrow> caseDoc list \<times> event list" where
  "processCaseBatch rt w now [] store = (store, [])"
| "processCaseBatch rt w now (d # ds) store =
     (let (store1, r) = analyzeSingleCase rt w now d store;
          (store2, evs) = processCaseBatch rt w now ds store1
      in (store2, CaseDone (caseId d) r # evs))"

definition batchSize :: nat where
  "batchSize = 5"

definition slice :: "nat \<Rightarrow> nat \<Rightarrow> 'a list \<Rightarrow> 'a list" where
  "slice i j xs = take (j - i) (drop i xs)"

text \<open>The \<open>for\<close> loop of the hourly run, from index \<open>i\<close>.\<close>

function runBatches ::
  "runtime \<Rightarrow> world \<Rightarrow> int \<Rightarrow> nat \<Rightarrow> caseDoc list \<Rightarrow> caseDoc list \<Rightarrow> caseDoc list \<times> event list" where
  "runBatches rt w now i casesToAnalyze store =
     (if i < length casesToAnalyze then
        (let batch = slice i (i + batchSize) casesToAnalyze;
             (store1, evs) = processCaseBatch rt w now batch store;
             pause = (if i + batchSize < length casesToAnalyze then [Delay 2000] else []);
             (store2, rest) = runBatches rt w now (i + batchSize) casesToAnalyze store1
         in (store2, BatchStart (map caseId batch) # evs @ pause @ rest))
      else (store, []))"
  by pat_completeness auto
termination
  by (relation "measure (\<lambda>(rt, w, now, i, cs, store). length cs - i)")
     (auto simp: batchSize_def)

record scheduler =
  isProcessing :: bool
  lastRunTime :: "int option"

text \<open>
  \<open>runSchedulerAnalysis\<close> is an \<open>async\<close> function: a call runs up to the first
  \<open>await\<close> and returns, and the rest of the body runs later, one stretch per
  \<open>await\<close>, while other code of the service (a further trigger of the timer) may run
  in between. A run that was started and has not ended is suspended at one of the three
  \<open>await\<close>s of the body: at the selection, with the time at which the filter was built;
  at \<open>processCaseBatch\<close> for the batch at index \<open>i\<close>; or at the delay after that
  batch.
\<close>

datatype run =
    AwaitSelect int
  | AwaitBatch nat "caseDoc list"
  | AwaitDelay nat "caseDoc list"

text \<open>
  The service: the fields of the scheduler object, the case store, the runs that are
  suspended, and the log.
\<close>

record service =
  schedulerOf :: scheduler
  caseStore :: "caseDoc list"
  inFlight :: "run list"
  eventLog :: "event list"

definition logEvents :: "event list \<Rightarrow> service \<Rightarrow> service" where
  "logEvents evs s = s \<lparr> eventLog := eventLog s @ evs \<rparr>"

text \<open>
  The call of \<open>runSchedulerAnalysis\<close> up to its first \<open>await\<close>: the guard, and
  inside the \<open>try\<close> block the flag is set and the selection is started.
\<close>

definition runSchedulerAnalysis :: "int \<Rightarrow> service \<Rightarrow> service" where
  "runSchedulerAnalysis now s =
     (if isProcessing (schedulerOf s) then logEvents [Skipped] s
      else s \<lparr> schedulerOf := (schedulerOf s) \<lparr> isProcessing := True \<rparr>,
               inFlight := inFlight s @ [AwaitSelect now] \<rparr>)"

text \<open>The \<open>finally\<close> clause, which every path out of the \<open>try\<close> block runs.\<close>

definition finallyClause :: "service \<Rightarrow> service" where
  "finallyClause s = s \<lparr> schedulerOf := (schedulerOf s) \<lparr> isProcessing := False \<rparr> \<rparr>"

text \<open>
  The test of the \<open>for\<close> loop at index \<open>i\<close>: the next batch is dispatched, or the
  loop is left, \<open>lastRunTime\<close> is set and the run ends. The result is the \<open>await\<close>
  at which the run is suspended next, or \<open>None\<close> when it has ended.
\<close>

definition loopTest :: "int \<Rightarrow> nat \<Rightarrow> caseDoc list \<Rightarrow> service \<Rightarrow> run option \<times> service" where
  "loopTest now i casesToAnalyze s =
     (if i < length casesToAnalyze
      then (Some (AwaitBatch i casesToAnalyze),
            logEvents [BatchStart (map caseId (slice i (i + batchSize) casesToAnalyze))] s)
      else (None,
            finallyClause
              (logEvents [Completed]
                 (s \<lparr> schedulerOf := (schedulerOf s) \<lparr> lastRunTime := Some now \<rparr> \<rparr>))))"

text \<open>
  \<open>await this.processCaseBatch(batch)\<close> has settled for the batch at index \<open>i\<close>:
  the analyses of the batch have worked on the store and left their events.
\<close>

definition settleBatch ::
  "runtime \<Rightarrow> world \<Rightarrow> int \<Rightarrow> nat \<Rightarrow> caseDoc list \<Rightarrow> service \<Rightarrow> service" where
  "settleBatch rt w now i casesToAnalyze s =
     (let settled = processCaseBatch rt w now
                      (slice i (i + batchSize) casesToAnalyze) (caseStore s)
      in logEvents (snd settled) (s \<lparr> caseStore := fst settled \<rparr>))"

text \<open>
  The stretch of the body that runs when the \<open>await\<close> of a suspended run settles at
  time \<open>now\<close>. A rejected selection is caught by the \<open>catch\<close> clause; an empty
  selection returns from inside the \<open>try\<close> block.
\<close>

definition resumeRun ::
  "runtime \<Rightarrow> world \<Rightarrow> int \<Rightarrow> run \<Rightarrow> service \<Rightarrow> run option \<times> service" where
  "resumeRun rt w now r s =
     (case r of
        AwaitSelect t \<Rightarrow>
          (case getCasesForAnalysis rt w t (caseStore s) of
             Inl e \<Rightarrow> (None, finallyClause (logEvents [SelectionFailed e] s))
           | Inr casesToAnalyze \<Rightarrow>
               if length casesToAnalyze = 0
               then (None, finallyClause (logEvents [NoCases] s))
               else loopTest now 0 casesToAnalyze s)
      | AwaitBatch i casesToAnalyze \<Rightarrow>
          (let s1 = settleBatch rt w now i casesToAnalyze s
           in if i + batchSize < length casesToAnalyze
              then (Some (AwaitDelay i casesToAnalyze), logEvents [Delay 2000] s1)
              else loopTest now (i + batchSize) casesToAnalyze s1)
      | AwaitDelay i casesToAnalyze \<Rightarrow> loopTest now (i + batchSize) casesToAnalyze s)"

text \<open>
  The \<open>k\<close>-th suspended run is resumed; it stays in the list while it is suspended
  again and leaves it when it has ended.
\<close>

definition resume :: "runtime \<Rightarrow> world \<Rightarrow> int \<Rightarrow> nat \<Rightarrow> service \<Rightarrow> service" where
  "resume rt w now k s =
     (if k < length (inFlight s)
      then (case resumeRun rt w now (inFlight s ! k) s of
              (None, s') \<Rightarrow> s' \<lparr> inFlight := take k (inFlight s) @ drop (Suc k) (inFlight s) \<rparr>
            | (Some r', s') \<Rightarrow> s' \<lparr> inFlight := (inFlight s)[k := r'] \<rparr>)
      else s)"

text \<open>
  What happens to the service: the timer calls \<open>runSchedulerAnalysis\<close>, or the
  \<open>await\<close> of a suspended run settles.
\<close>

datatype action = Trigger int | Resume nat int

fun step :: "runtime \<Rightarrow> world \<Rightarrow> action \<Rightarrow> service \<Rightarrow> service" where
  "step rt w (Trigger now) s = runSchedulerAnalysis now s"
| "step rt w (Resume k now) s = resume rt w now k s"

definition exec :: "runtime \<Rightarrow> world \<Rightarrow> action list \<Rightarrow> service \<Rightarrow> service" where
  "exec rt w acts s = foldl (\<lambda>s a. step rt w a s) s acts"

text \<open>
  A bound on the number of \<open>await\<close>s a suspended run still has to pass; a selection
  returns at most 20 cases.
\<close>

fun awaitsLeft :: "run \<Rightarrow> nat" where
  "awaitsLeft (AwaitSelect t) = 44"
| "awaitsLeft (AwaitBatch i cs) = 2 * (length cs - i) + 3"
| "awaitsLeft (AwaitDelay i cs) = 2 * (length cs - i) + 2"

text \<open>
  The state the re-entrancy guard is to maintain: at most one run is suspended, and the
  flag is set exactly while one is.
\<close>

definition singleRun :: "service \<Rightarrow> bool" where
  "singleRun s = (length (inFlight s) \<le> 1 \<and> isProcessing (schedulerOf s) = (inFlight s \<noteq> []))"

subsection \<open>Reading a trace of events\<close>

text \<open>
  What a trace shows: the batches dispatched, the cases attempted, the delays waited, and
  the outline of the run, which is the trace without the per-case events.
\<close>

fun batchIds :: "event \<Rightarrow> nat list list" where
  "batchIds (BatchStart ids) = [ids]"
| "batchIds e = []"

fun attemptId :: "event \<Rightarrow> nat list" where
  "attemptId (CaseDone i r) = [i]"
| "attemptId e = []"

fun delayMs :: "event \<Rightarrow> nat list" where
  "delayMs (Delay n) = [n]"
| "delayMs e = []"

fun isCaseDone :: "event \<Rightarrow> bool" where
  "isCaseDone (CaseDone i r) = True"
| "isCaseDone e = False"

definition batchesOf :: "event list \<Rightarrow> nat list list" where
  "batchesOf evs = concat (map batchIds evs)"

definition attemptsOf :: "event list \<Rightarrow> nat list" where
  "attemptsOf evs = concat (map attemptId evs)"

definition delaysOf :: "event list \<Rightarrow> nat list" where
  "delaysOf evs = concat (map delayMs evs)"

definition outline :: "event list \<Rightarrow> event list" where
  "outline evs = filter (\<lambda>e. \<not> isCaseDone e) evs"

text \<open>\<open>separate s xs\<close> puts \<open>s\<close> between consecutive elements of \<open>xs\<close>.\<close>

fun separate :: "'a \<Rightarrow> 'a list \<Rightarrow> 'a list" where
  "separate s [] = []"
| "separate s [x] = [x]"
| "separate s (x # y # ys) = x # s # separate s (y # ys)"

text \<open>
  The partition of the specification, to compare the loop with: consecutive groups of
  \<open>n\<close> elements in list order, the last one possibly shorter.
\<close>

function chunk :: "nat \<Rightarrow> 'a list \<Rightarrow> 'a list list" where
  "chunk n xs = (if n = 0 \<or> xs = [] then [] else take n xs # chunk n (drop n xs))"
  by pat_completeness auto
termination
  by (relation "measure (\<lambda>(n, xs). length xs)") auto

section \<open>Sample inputs\<close>

text \<open>
  A runtime that agrees with the real one on the sample texts below: it parses the five
  sample responses, leaves them untrimmed (they carry no outer white space), reads the
  word \<open>high\<close> as no number and the string \<open>$updatedAt\<close> as no date, and adds whole
  days as multiples of 24 hours.
\<close>

definition sampleRuntime :: runtime where
  \<open>sampleRuntime =
     \<lparr> JSON_parse = map_of
         [ (''{"priorityScore": "high"}'', JObj [(''priorityScore'', JStr ''high'')]),
           (''{"complexityScore": 80}'', JObj [(''complexityScore'', JNum (Fin 80))]),
           (''{"priorityScore": 88, "reasoning": "Hearing is near"}'',
              JObj [(''priorityScore'', JNum (Fin 88)), (''reasoning'', JStr ''Hearing is near'')]),
           (''{"complexityScore": {"toString": 1}, "estimatedDuration": 10}'',
              JObj [(''complexityScore'', JObj [(''toString'', JNum (Fin 1))]),
                    (''estimatedDuration'', JNum (Fin 10))]),
           (''null'', JNull) ],
       String_trim = (\<lambda>s. s),
       StringToNumber = (\<lambda>s. NaN),
       NumberToString = (\<lambda>n. if n = Fin 88 then ''88'' else if n = Fin 50 then ''50'' else ''NaN''),
       Date_parse = (\<lambda>s. None),
       Date_addDays =
         (\<lambda>t n. case n of Fin x \<Rightarrow> Some (t + \<lfloor>x\<rfloor> * msPerDay) | _ \<Rightarrow> None) \<rparr>\<close>

definition sampleWorld :: world where
  \<open>sampleWorld =
     \<lparr> getAIAnalysis =
         (\<lambda>d. Inr (Some ''{"priorityScore": 88, "reasoning": "Hearing is near"}'')),
       findOk = True,
       writeOk = (\<lambda>i. True),
       generateCaseNumber = (\<lambda>now store. ''CASE/2023/0001'') \<rparr>\<close>

definition sampleNow :: int where
  "sampleNow = 1700000000000"

text \<open>
  An assigned case without hearing and completion dates, analysed an hour before
  \<open>sampleNow\<close> and modified half an hour before it.
\<close>

definition sampleCase :: caseDoc where
  "sampleCase =
     \<lparr> caseId = 1,
       caseNumber = ''CASE/2023/0001'',
       status = assigned,
       priority = Medium,
       c_priorityScore = Fin 50,
       hearingDate = None,
       expectedCompletionDate = None,
       aiAnalysis =
         \<lparr> ai_complexityScore = Some (Fin 50),
           ai_urgencyFactors = [],
           ai_delayRiskFactors = [],
           ai_estimatedDuration = Some (Fin 30),
           ai_similarCasesCount = Some (Fin 0),
           ai_successProbability = Some (Fin 50),
           lastAnalyzed = Some (sampleNow - 60 * 60 * 1000) \<rparr>,
       delayInfo = \<lparr> isDelayed = False, delayDays = 0, delayImpact = ImpactLow \<rparr>,
       caseNotes = [],
       updatedAt = sampleNow - 30 * 60 * 1000,
       castFailed = False \<rparr>"

text \<open>
  A case awaiting a hearing that was due 45 days before \<open>sampleNow\<close>, with an expected
  completion date 10 days before \<open>sampleNow\<close>.
\<close>

definition overdueCase :: caseDoc where
  "overdueCase =
     sampleCase
       \<lparr> caseId := 2,
         status := awaiting_hearing,
         hearingDate := Some (DateAt (sampleNow - 45 * msPerDay)),
         expectedCompletionDate := Some (DateAt (sampleNow - 10 * msPerDay)) \<rparr>"

text \<open>
  A case in progress whose hearing date lies 30 days before \<open>sampleNow\<close> and whose
  expected completion date lies 60 days after it: not delayed, priority score 50.
\<close>

definition pastHearingCase :: caseDoc where
  "pastHearingCase =
     sampleCase
       \<lparr> caseId := 3,
         status := in_progress,
         hearingDate := Some (DateAt (sampleNow - 30 * msPerDay)),
         expectedCompletionDate := Some (DateAt (sampleNow + 60 * msPerDay)) \<rparr>"

text \<open>The sample case with a priority score of 82.\<close>

definition urgentCase :: caseDoc where
  "urgentCase = sampleCase \<lparr> c_priorityScore := Fin 82 \<rparr>"

text \<open>Seven cases with the ids 1 to 7, and a world whose scoring call fails for case 3.\<close>

definition sevenCases :: "caseDoc list" where
  "sevenCases = map (\<lambda>i. sampleCase \<lparr> caseId := i \<rparr>) [1, 2, 3, 4, 5, 6, 7]"

definition flakyWorld :: world where
  "flakyWorld =
     sampleWorld
       \<lparr> getAIAnalysis :=
           (\<lambda>d. if caseId d = 3 then Inl NetworkError else getAIAnalysis sampleWorld d) \<rparr>"

text \<open>
  A case that was never analysed, and a runtime whose date parser reads every string as
  the epoch: under it the operand \<open>$updatedAt\<close> is accepted and lies before every
  date of the samples, so that the selector's filter is evaluated by the store.
\<close>

definition lenientRuntime :: runtime where
  "lenientRuntime = sampleRuntime \<lparr> Date_parse := (\<lambda>s. Some 0) \<rparr>"

definition freshCase :: caseDoc where
  "freshCase =
     sampleCase \<lparr> caseId := 4, aiAnalysis := (aiAnalysis sampleCase) \<lparr> lastAnalyzed := None \<rparr> \<rparr>"

text \<open>
  The service at rest with a store, the service while one run is suspended at the
  selection, and the service while a run over the seven cases is suspended at its first
  batch.
\<close>

definition idle :: "caseDoc list \<Rightarrow> service" where
  "idle store =
     \<lparr> schedulerOf = \<lparr> isProcessing = False, lastRunTime = None \<rparr>,
       caseStore = store, inFlight = [], eventLog = [] \<rparr>"

definition midRun :: service where
  "midRun =
     \<lparr> schedulerOf = \<lparr> isProcessing = True, lastRunTime = None \<rparr>,
       caseStore = sevenCases, inFlight = [AwaitBatch 0 sevenCases],
       eventLog = [BatchStart [1, 2, 3, 4, 5]] \<rparr>"

lemma sampleCase_fields:
  "caseId sampleCase = 1"
  "caseNumber sampleCase = ''CASE/2023/0001''"
  "status sampleCase = assigned"
  "c_priorityScore sampleCase = Fin 50"
  "hearingDate sampleCase = None"
  "expectedCompletionDate sampleCase = None"
  "lastAnalyzed (aiAnalysis sampleCase) = Some (sampleNow - 60 * 60 * 1000)"
  "isDelayed (delayInfo sampleCase) = False"
  "delayDays (delayInfo sampleCase) = 0"
  "caseNotes sampleCase = []"
  "updatedAt sampleCase = sampleNow - 30 * 60 * 1000"
  by (simp_all add: sampleCase_def)

lemma overdueCase_fields:
  "caseId overdueCase = 2"
  "caseNumber overdueCase = ''CASE/2023/0001''"
  "status overdueCase = awaiting_hearing"
  "hearingDate overdueCase = Some (DateAt (sampleNow - 45 * msPerDay))"
  "expectedCompletionDate overdueCase = Some (DateAt (sampleNow - 10 * msPerDay))"
  by (simp_all add: overdueCase_def sampleCase_def)

lemma pastHearingCase_fields:
  "caseId pastHearingCase = 3"
  "status pastHearingCase = in_progress"
  "c_priorityScore pastHearingCase = Fin 50"
  "hearingDate pastHearingCase = Some (DateAt (sampleNow - 30 * msPerDay))"
  "expectedCompletionDate pastHearingCase = Some (DateAt (sampleNow + 60 * msPerDay))"
  "isDelayed (delayInfo pastHearingCase) = False"
  "delayDays (delayInfo pastHearingCase) = 0"
  by (simp_all add: pastHearingCase_def sampleCase_def)

lemma urgentCase_fields:
  "caseId urgentCase = 1"
  "status urgentCase = assigned"
  "c_priorityScore urgentCase = Fin 82"
  "hearingDate urgentCase = None"
  "isDelayed (delayInfo urgentCase) = False"
  by (simp_all add: urgentCase_def sampleCase_def)

section \<open>The parser\<close>





text \<open>
  C1 (evaluation at the failing input). A response whose \<open>priorityScore\<close> is a word, as in
  \<open>{"priorityScore": "high"}\<close>, parses as JSON; the word is truthy, so the default 50 is
  not taken, and \<open>Math.min(100, "high")\<close> is \<open>NaN\<close>, which \<open>Math.max(0, NaN)\<close> hands
  on. The parser returns \<open>priorityScore = NaN\<close>, which is neither at least 0 nor at
  most 100.
\<close>

theorem parse_word_score_is_NaN:
  assumes "JSON_parse rt (String_trim rt (stripFences text))
             = Some (JObj [(''priorityScore'', JStr ''high'')])"
    and "StringToNumber rt ''high'' = NaN"
  shows "priorityScore (parseAIResponse rt (Some text)) = NaN
         \<and> \<not> num_ge (priorityScore (parseAIResponse rt (Some text))) (Fin 0)
         \<and> \<not> num_le (priorityScore (parseAIResponse rt (Some text))) (Fin 100)"
  using assms
  by (simp add: parseAIResponse_def normalizeAnalysis_def bindE_def ToNumber_def js_or_def
      getProp_def Math_max_def Math_min_def num_ge_def num_le_def)

theorem parse_word_score_is_NaN_witness:
  \<open>JSON_parse sampleRuntime
      (String_trim sampleRuntime (stripFences ''{"priorityScore": "high"}''))
     = Some (JObj [(''priorityScore'', JStr ''high'')])
   \<and> StringToNumber sampleRuntime ''high'' = NaN
   \<and> priorityScore (parseAIResponse sampleRuntime (Some ''{"priorityScore": "high"}'')) = NaN\<close>
proof -
  have p: \<open>JSON_parse sampleRuntime
             (String_trim sampleRuntime (stripFences ''{"priorityScore": "high"}''))
           = Some (JObj [(''priorityScore'', JStr ''high'')])\<close>
    by (simp add: sampleRuntime_def startsWith_def)
  have n: "StringToNumber sampleRuntime ''high'' = NaN"
    by (simp add: sampleRuntime_def)
  from parse_word_score_is_NaN [OF p n] p n show ?thesis
    by simp
qed




section \<open>The priority label\<close>

text \<open>
  C2. The label the update step writes is \<open>priorityFromScore\<close> of the score of the
  analysis, a function of the score alone: a score of at least 90 gives critical, from
  75 up to 90 urgent, from 60 up to 75 high, from 40 up to 60 medium, below 40 low; at
  the boundaries 90 is critical, 89 urgent, 60 high, 59 and 40 medium, 39 low.
\<close>

theorem priority_label_from_score:
  "priority (applyAnalysis rt now d a) = priorityFromScore (priorityScore a)
   \<and> (num_ge s (Fin 90) \<longrightarrow> priorityFromScore s = Critical)
   \<and> (num_ge s (Fin 75) \<and> num_lt s (Fin 90) \<longrightarrow> priorityFromScore s = Urgent)
   \<and> (num_ge s (Fin 60) \<and> num_lt s (Fin 75) \<longrightarrow> priorityFromScore s = High)
   \<and> (num_ge s (Fin 40) \<and> num_lt s (Fin 60) \<longrightarrow> priorityFromScore s = Medium)
   \<and> (num_lt s (Fin 40) \<longrightarrow> priorityFromScore s = Low)
   \<and> priorityFromScore (Fin 90) = Critical
   \<and> priorityFromScore (Fin 89) = Urgent
   \<and> priorityFromScore (Fin 60) = High
   \<and> priorityFromScore (Fin 59) = Medium
   \<and> priorityFromScore (Fin 40) = Medium
   \<and> priorityFromScore (Fin 39) = Low"
proof -
  have "priority (applyAnalysis rt now d a) = priorityFromScore (priorityScore a)"
    by (simp add: applyAnalysis_def Let_def split: option.splits)
  then show ?thesis
    by (cases s) (auto simp: priorityFromScore_def num_ge_def num_lt_def)
qed

theorem priority_label_from_score_witness:
  "num_ge (Fin 82) (Fin 75) \<and> num_lt (Fin 82) (Fin 90) \<and> priorityFromScore (Fin 82) = Urgent
   \<and> num_ge (Fin 95) (Fin 90) \<and> priorityFromScore (Fin 95) = Critical
   \<and> num_lt (Fin 10) (Fin 40) \<and> priorityFromScore (Fin 10) = Low"
  using priority_label_from_score [of sampleRuntime 0 _ _ "Fin 82"]
    priority_label_from_score [of sampleRuntime 0 _ _ "Fin 95"]
    priority_label_from_score [of sampleRuntime 0 _ _ "Fin 10"]
  by (simp add: num_ge_def num_lt_def)

section \<open>Delay information\<close>

lemma msPerDay_pos: "0 < msPerDay"
  by (simp add: msPerDay_def)

lemma days_nonneg: "t < now \<Longrightarrow> 0 \<le> (now - t) div msPerDay"
  using msPerDay_pos by (simp add: pos_imp_zdiv_nonneg_iff)

lemma updateDelayInfo_isDelayed:
  "isDelayed (delayInfo (updateDelayInfo now d))
     = (completionDelay now d \<noteq> None \<or> hearingDelay now d \<noteq> None)"
  by (auto simp: updateDelayInfo_def Let_def checkHearing_def checkCompletion_def
      completionDelay_def hearingDelay_def split: option.splits jsdate.splits)

lemma updateDelayInfo_delayDays:
  "delayDays (delayInfo (updateDelayInfo now d)) = delayDays_spec now d"
  using days_nonneg
  by (auto simp: updateDelayInfo_def Let_def checkHearing_def checkCompletion_def
      completionDelay_def hearingDelay_def delayDays_spec_def max_def
      split: option.splits jsdate.splits)

lemma updateDelayInfo_delayImpact:
  "delayImpact (delayInfo (updateDelayInfo now d))
     = impactOf (delayDays (delayInfo (updateDelayInfo now d)))"
  by (simp add: updateDelayInfo_def Let_def)

lemma updateDelayInfo_derived:
  "delayInfo (updateDelayInfo now (d \<lparr> delayInfo := x \<rparr>)) = delayInfo (updateDelayInfo now d)"
  by (simp add: updateDelayInfo_def Let_def checkHearing_def checkCompletion_def
      split: option.splits jsdate.splits)

lemma updateDelayInfo_caseId: "caseId (updateDelayInfo now d) = caseId d"
  by (simp add: updateDelayInfo_def Let_def)

lemma updateDelayInfo_updatedAt:
  "delayInfo (updateDelayInfo now (d \<lparr> updatedAt := t \<rparr>)) = delayInfo (updateDelayInfo now d)"
  by (simp add: updateDelayInfo_def Let_def checkHearing_def checkCompletion_def
      split: option.splits jsdate.splits)

lemma putDoc_member:
  assumes "x \<in> set (putDoc d store)" and "caseId x = caseId d"
  shows "x = d"
proof (cases "caseId d \<in> set (map caseId store)")
  case True
  with assms(1) obtain y where "y \<in> set store" and "x = (if caseId y = caseId d then d else y)"
    by (auto simp: putDoc_def)
  with assms(2) show ?thesis
    by (cases "caseId y = caseId d") simp_all
next
  case False
  with assms(1) have "x \<in> set store \<or> x = d"
    by (auto simp: putDoc_def)
  moreover from False assms(2) have "x \<notin> set store"
    by (metis image_eqI set_map)
  ultimately show ?thesis
    by blast
qed

lemma save_stores_pre_save:
  assumes "save w now m d store = Inr store'" and "x \<in> set store'" and "caseId x = caseId d"
  shows "delayInfo x = delayInfo (updateDelayInfo now d)"
proof -
  define st where
    "st = (if m \<or> caseId d \<notin> set (map caseId store) then d \<lparr> updatedAt := now \<rparr> else d)"
  have i: "caseId st = caseId d"
    and n: "caseNumber st = caseNumber d"
    and u: "delayInfo (updateDelayInfo now st) = delayInfo (updateDelayInfo now d)"
    by (simp_all add: st_def updateDelayInfo_updatedAt)
  from assms(1) have v: "validateCase d"
    by (simp add: save_def split: if_splits)
  from assms(1) have s: "store' = putDoc (pre_save w now store st) store"
    unfolding save_def Let_def st_def [symmetric] by (simp split: if_splits)
  from v have "caseNumber d \<noteq> []"
    by (simp add: validateCase_def)
  with n have p: "pre_save w now store st = updateDelayInfo now st"
    by (simp add: pre_save_def)
  from assms(2) have "x \<in> set (putDoc (updateDelayInfo now st) store)"
    unfolding s p .
  moreover from assms(3) i have "caseId x = caseId (updateDelayInfo now st)"
    by (simp add: updateDelayInfo_caseId)
  ultimately have "x = updateDelayInfo now st"
    by (rule putDoc_member)
  with u show ?thesis
    by simp
qed

text \<open>
  C10. \<open>updateDelayInfo\<close>, which the pre-save hook runs on every document that is
  written, derives the delay information from the expected completion date, the hearing
  date, the status and the current time alone: \<open>isDelayed\<close> holds exactly when the
  expected completion date has passed or the hearing date has passed while the case is
  awaiting its hearing; \<open>delayDays\<close> is the larger of the whole days since the dates
  that have passed so, and 0 when none has; \<open>delayImpact\<close> is critical above 180 days,
  high above 90, medium above 30 and low otherwise. The previous delay information has no
  influence, and the document a successful save leaves in the store carries the derived
  values.
\<close>

theorem delayInfo_recomputed_on_save:
  "isDelayed (delayInfo (updateDelayInfo now d))
     = ((\<exists>t. expectedCompletionDate d = Some (DateAt t) \<and> t < now)
        \<or> (\<exists>h. hearingDate d = Some (DateAt h) \<and> h < now \<and> status d = awaiting_hearing))
   \<and> delayDays (delayInfo (updateDelayInfo now d)) = delayDays_spec now d
   \<and> (\<not> isDelayed (delayInfo (updateDelayInfo now d))
        \<longrightarrow> delayDays (delayInfo (updateDelayInfo now d)) = 0)
   \<and> delayImpact (delayInfo (updateDelayInfo now d))
        = (let n = delayDays (delayInfo (updateDelayInfo now d))
           in if n > 180 then ImpactCritical
              else if n > 90 then ImpactHigh
              else if n > 30 then ImpactMedium
              else ImpactLow)
   \<and> delayInfo (updateDelayInfo now (d \<lparr> delayInfo := x \<rparr>)) = delayInfo (updateDelayInfo now d)
   \<and> (save w now m d store = Inr store'
        \<longrightarrow> (\<forall>c \<in> set store'. caseId c = caseId d
               \<longrightarrow> delayInfo c = delayInfo (updateDelayInfo now d)))"
proof -
  have a: "isDelayed (delayInfo (updateDelayInfo now d))
     = ((\<exists>t. expectedCompletionDate d = Some (DateAt t) \<and> t < now)
        \<or> (\<exists>h. hearingDate d = Some (DateAt h) \<and> h < now \<and> status d = awaiting_hearing))"
    unfolding updateDelayInfo_isDelayed
    by (auto simp: completionDelay_def hearingDelay_def split: option.splits jsdate.splits)
  have b: "delayDays (delayInfo (updateDelayInfo now d)) = 0"
    if "\<not> isDelayed (delayInfo (updateDelayInfo now d))"
    using that unfolding updateDelayInfo_isDelayed updateDelayInfo_delayDays
    by (simp add: delayDays_spec_def)
  have c: "save w now m d store = Inr store'
        \<longrightarrow> (\<forall>c \<in> set store'. caseId c = caseId d
               \<longrightarrow> delayInfo c = delayInfo (updateDelayInfo now d))"
    using save_stores_pre_save [of w now m d store store'] by blast
  have e: "delayImpact (delayInfo (updateDelayInfo now d))
        = (let n = delayDays (delayInfo (updateDelayInfo now d))
           in if n > 180 then ImpactCritical
              else if n > 90 then ImpactHigh
              else if n > 30 then ImpactMedium
              else ImpactLow)"
    unfolding updateDelayInfo_delayImpact by (simp add: impactOf_def Let_def)
  from a updateDelayInfo_delayDays [of now d] b e updateDelayInfo_derived [of now x d] c
  show ?thesis
    by blast
qed

theorem delayInfo_recomputed_on_save_witness:
  "save sampleWorld sampleNow True overdueCase [sampleCase, overdueCase]
     = Inr [sampleCase, (updateDelayInfo sampleNow overdueCase) \<lparr> updatedAt := sampleNow \<rparr>]
   \<and> isDelayed (delayInfo (updateDelayInfo sampleNow overdueCase))
   \<and> delayDays (delayInfo (updateDelayInfo sampleNow overdueCase)) = 45
   \<and> delayImpact (delayInfo (updateDelayInfo sampleNow overdueCase)) = ImpactMedium
   \<and> \<not> isDelayed (delayInfo (updateDelayInfo sampleNow sampleCase))
   \<and> delayDays (delayInfo (updateDelayInfo sampleNow sampleCase)) = 0"
proof -
  let ?stored = "(updateDelayInfo sampleNow overdueCase) \<lparr> updatedAt := sampleNow \<rparr>"
  have v: "validateCase overdueCase"
    by (simp add: validateCase_def overdueCase_def sampleCase_def inRange_def inRangeIfSet_def
        num_ge_def num_le_def num_lt_def)
  have u: "updateDelayInfo sampleNow (overdueCase \<lparr> updatedAt := sampleNow \<rparr>) = ?stored"
    by (simp add: updateDelayInfo_def Let_def checkHearing_def checkCompletion_def
        overdueCase_fields)
  have s: "save sampleWorld sampleNow True overdueCase [sampleCase, overdueCase]
             = Inr [sampleCase, ?stored]"
    using v
    by (simp add: save_def putDoc_def pre_save_def sampleWorld_def u updateDelayInfo_caseId
        sampleCase_fields overdueCase_fields)
  have c: "completionDelay sampleNow overdueCase = Some 10"
    and h: "hearingDelay sampleNow overdueCase = Some 45"
    by (simp_all add: completionDelay_def hearingDelay_def overdueCase_fields msPerDay_def)
  have m: "sampleNow - 45 * msPerDay < sampleNow"
    by (simp add: msPerDay_def)
  from delayInfo_recomputed_on_save
         [of sampleNow overdueCase "delayInfo overdueCase" sampleWorld True
            "[sampleCase, overdueCase]" "[sampleCase, ?stored]"]
       s c h m
  have o: "isDelayed (delayInfo (updateDelayInfo sampleNow overdueCase))
           \<and> delayDays (delayInfo (updateDelayInfo sampleNow overdueCase)) = 45
           \<and> delayImpact (delayInfo (updateDelayInfo sampleNow overdueCase)) = ImpactMedium"
    by (simp add: delayDays_spec_def Let_def overdueCase_fields)
  from delayInfo_recomputed_on_save
         [of sampleNow sampleCase "delayInfo sampleCase" sampleWorld True "[]" "[]"]
  have n: "\<not> isDelayed (delayInfo (updateDelayInfo sampleNow sampleCase))
           \<and> delayDays (delayInfo (updateDelayInfo sampleNow sampleCase)) = 0"
    by (auto simp: sampleCase_fields)
  from s o n show ?thesis
    by simp
qed

section \<open>The update step\<close>

lemma systemNote_invalid: "\<not> validateNote (systemNote c)"
  by (simp add: validateNote_def systemNote_def)

lemma save_system_note_rejected:
  "save w now m (d \<lparr> caseNotes := ns @ [systemNote c] \<rparr>) store = Inl ValidationError"
  by (simp add: save_def validateCase_def systemNote_invalid)

lemma update_with_content:
  "noteContent rt a = Inr c
     \<Longrightarrow> updateCaseWithAIAnalysis rt w now d a store = Inl ValidationError"
  by (simp add: updateCaseWithAIAnalysis_def bindE_def save_system_note_rejected)

lemma noteContent_error: "noteContent rt a = Inl e \<Longrightarrow> e = TypeError"
proof -
  have "ToString rt v = Inl e \<Longrightarrow> e = TypeError"
    and "Array_join rt vs = Inl e \<Longrightarrow> e = TypeError" for v vs
    by (induction rt v and rt vs rule: ToString_Array_join.induct)
       (auto split: if_splits sum.splits)
  then show "noteContent rt a = Inl e \<Longrightarrow> e = TypeError"
    by (auto simp: noteContent_def bindE_def split: sum.splits)
qed

lemma update_fails:
  "updateCaseWithAIAnalysis rt w now d a store = Inl ValidationError
   \<or> updateCaseWithAIAnalysis rt w now d a store = Inl TypeError"
proof (cases "noteContent rt a")
  case (Inl e)
  then show ?thesis
    using noteContent_error [OF Inl]
    by (simp add: updateCaseWithAIAnalysis_def bindE_def)
next
  case (Inr c)
  then show ?thesis
    by (simp add: update_with_content)
qed

lemma analyzeSingleCase_fails:
  "fst (analyzeSingleCase rt w now d store) = store
   \<and> snd (analyzeSingleCase rt w now d store) \<noteq> Analyzed"
proof (cases "getAIAnalysis w d")
  case (Inl e)
  then show ?thesis
    by (simp add: analyzeSingleCase_def)
next
  case (Inr r)
  with update_fails [of rt w now d "parseAIResponse rt r" store] show ?thesis
    by (auto simp: analyzeSingleCase_def)
qed

text \<open>
  C4 (evaluation at every input). The note the update step appends has
  \<open>createdBy: null\<close>, and the schema of a note declares \<open>createdBy\<close> required, so
  the document fails validation and \<open>save\<close> rejects it: for every case, analysis,
  time and store the update step ends in an error (a ValidationError whenever the text of
  the note could be built) and writes nothing, and \<open>analyzeSingleCase\<close> leaves the
  store as it was and reports the case as failed.
\<close>

theorem update_never_persists:
  "(updateCaseWithAIAnalysis rt w now d a store = Inl ValidationError
      \<or> updateCaseWithAIAnalysis rt w now d a store = Inl TypeError)
   \<and> (\<forall>c. noteContent rt a = Inr c
          \<longrightarrow> updateCaseWithAIAnalysis rt w now d a store = Inl ValidationError)
   \<and> fst (analyzeSingleCase rt w now d store) = store
   \<and> snd (analyzeSingleCase rt w now d store) \<noteq> Analyzed"
  using update_fails [of rt w now d a store] analyzeSingleCase_fails [of rt w now d store]
  by (simp add: update_with_content)

theorem update_never_persists_witness:
  \<open>parseAIResponse sampleRuntime
       (Some ''{"priorityScore": 88, "reasoning": "Hearing is near"}'')
     = \<lparr> priorityScore = Fin 88, complexityScore = Fin 50, urgencyFactors = [],
         delayRiskFactors = [], estimatedDuration = Fin 30, successProbability = Fin 50,
         similarCasesCount = Fin 0, reasoning = JStr ''Hearing is near'' \<rparr>
   \<and> noteContent sampleRuntime
        (parseAIResponse sampleRuntime
           (Some ''{"priorityScore": 88, "reasoning": "Hearing is near"}''))
       = Inr ''AI Analysis: Priority Score 88/100. Hearing is near''
   \<and> updateCaseWithAIAnalysis sampleRuntime sampleWorld sampleNow sampleCase
        (parseAIResponse sampleRuntime
           (Some ''{"priorityScore": 88, "reasoning": "Hearing is near"}''))
        [sampleCase]
       = Inl ValidationError
   \<and> analyzeSingleCase sampleRuntime sampleWorld sampleNow sampleCase [sampleCase]
       = ([sampleCase], Failed ValidationError)\<close>
proof -
  let ?a = \<open>parseAIResponse sampleRuntime
              (Some ''{"priorityScore": 88, "reasoning": "Hearing is near"}'')\<close>
  have p: \<open>?a = \<lparr> priorityScore = Fin 88, complexityScore = Fin 50, urgencyFactors = [],
         delayRiskFactors = [], estimatedDuration = Fin 30, successProbability = Fin 50,
         similarCasesCount = Fin 0, reasoning = JStr ''Hearing is near'' \<rparr>\<close>
    by (simp add: parseAIResponse_def sampleRuntime_def startsWith_def normalizeAnalysis_def
        bindE_def ToNumber_def js_or_def getProp_def Math_max_def Math_min_def num_lt_def
        arrayOrEmpty_def)
  have n: \<open>noteContent sampleRuntime ?a
             = Inr ''AI Analysis: Priority Score 88/100. Hearing is near''\<close>
    unfolding p by (simp add: noteContent_def bindE_def sampleRuntime_def)
  have g: \<open>getAIAnalysis sampleWorld sampleCase
             = Inr (Some ''{"priorityScore": 88, "reasoning": "Hearing is near"}'')\<close>
    by (simp add: sampleWorld_def)
  from update_never_persists
         [of sampleRuntime sampleWorld sampleNow sampleCase ?a "[sampleCase]"]
       n
  have u: "updateCaseWithAIAnalysis sampleRuntime sampleWorld sampleNow sampleCase ?a
             [sampleCase] = Inl ValidationError"
    by blast
  from u g have "analyzeSingleCase sampleRuntime sampleWorld sampleNow sampleCase [sampleCase]
                   = ([sampleCase], Failed ValidationError)"
    by (simp add: analyzeSingleCase_def)
  with p n u show ?thesis
    by simp
qed

section \<open>The urgent-cases query\<close>

lemma set_insertDesc: "set (insertDesc d xs) = insert d (set xs)"
  by (induction xs) auto

lemma length_insertDesc: "length (insertDesc d xs) = Suc (length xs)"
  by (induction xs) auto

lemma set_sortByScoreDesc: "set (sortByScoreDesc xs) = set xs"
  by (induction xs) (simp_all add: sortByScoreDesc_def set_insertDesc)

lemma set_limitTo: "set (limitTo n xs) \<subseteq> set xs"
  by (auto simp: limitTo_def dest: in_set_takeD)

lemma length_limitTo: "0 < n \<Longrightarrow> length (limitTo n xs) \<le> n"
  by (simp add: limitTo_def)

lemma castOk_urgentQuery: "castOk rt (urgentQuery now)"
  by (simp add: urgentQuery_def clauseCastOk_def castDate_def)

lemma matches_urgentQuery:
  "matches rt (urgentQuery now) c
     = (status c \<notin> {completed, dismissed, settled}
        \<and> (num_ge (c_priorityScore c) (Fin 80)
            \<or> (isDelayed (delayInfo c) \<and> 30 \<le> delayDays (delayInfo c))
            \<or> (\<exists>h. hearingDate c = Some (DateAt h) \<and> h \<le> now + 7 * msPerDay)))"
  by (auto simp: urgentQuery_def matchClause_def castDate_def terminalStatuses_def msPerDay_def
      split: option.splits jsdate.splits)

lemma getUrgentCases_eq:
  "getUrgentCases rt w limit now store
     = (if findOk w
        then Inr (limitTo limit (sortByScoreDesc (filter (matches rt (urgentQuery now)) store)))
        else Inl NetworkError)"
  by (simp add: getUrgentCases_def Case_find_def bindE_def castOk_urgentQuery)

text \<open>
  C9 (amended). Every case the urgent-cases query returns is a case of the store that is
  not completed, dismissed or settled and that has a priority score of at least 80, or is
  delayed by at least 30 days, or has a hearing date no later than 7 days after now (a
  hearing date in the past included). With a positive limit at most that many cases are
  returned. From a store holding a case with priority score 82 and an otherwise identical
  case with priority score 70, no qualifying delay and no hearing date up to 7 days
  ahead, the query returns the first case and not the second.
\<close>

theorem urgent_cases_selected:
  "(getUrgentCases rt w limit now store = Inr cs \<and> c \<in> set cs
      \<longrightarrow> c \<in> set store
          \<and> status c \<notin> {completed, dismissed, settled}
          \<and> (num_ge (c_priorityScore c) (Fin 80)
              \<or> (isDelayed (delayInfo c) \<and> 30 \<le> delayDays (delayInfo c))
              \<or> (\<exists>h. hearingDate c = Some (DateAt h) \<and> h \<le> now + 7 * msPerDay)))
   \<and> (getUrgentCases rt w limit now store = Inr cs \<and> 0 < limit \<longrightarrow> length cs \<le> limit)
   \<and> (findOk w
        \<and> status d \<notin> {completed, dismissed, settled}
        \<and> c_priorityScore d = Fin 82
        \<and> \<not> (isDelayed (delayInfo d) \<and> 30 \<le> delayDays (delayInfo d))
        \<and> (\<forall>h. hearingDate d = Some (DateAt h) \<longrightarrow> now + 7 * msPerDay < h)
      \<longrightarrow> getUrgentCases rt w limit now [d, d \<lparr> caseId := k, c_priorityScore := Fin 70 \<rparr>]
            = Inr [d]
          \<and> getUrgentCases rt w limit now [d \<lparr> caseId := k, c_priorityScore := Fin 70 \<rparr>, d]
            = Inr [d])"
proof -
  have a: "c \<in> set store \<and> matches rt (urgentQuery now) c"
    if "getUrgentCases rt w limit now store = Inr cs" "c \<in> set cs"
    using that set_limitTo [of limit "sortByScoreDesc (filter (matches rt (urgentQuery now)) store)"]
    by (auto simp: getUrgentCases_eq set_sortByScoreDesc split: if_splits)
  have b: "length cs \<le> limit"
    if "getUrgentCases rt w limit now store = Inr cs" "0 < limit"
    using that by (auto simp: getUrgentCases_eq length_limitTo split: if_splits)
  have s: "getUrgentCases rt w limit now [d, d \<lparr> caseId := k, c_priorityScore := Fin 70 \<rparr>]
            = Inr [d]
          \<and> getUrgentCases rt w limit now [d \<lparr> caseId := k, c_priorityScore := Fin 70 \<rparr>, d]
            = Inr [d]"
    if "findOk w" "status d \<notin> {completed, dismissed, settled}" "c_priorityScore d = Fin 82"
       "\<not> (isDelayed (delayInfo d) \<and> 30 \<le> delayDays (delayInfo d))"
       "\<forall>h. hearingDate d = Some (DateAt h) \<longrightarrow> now + 7 * msPerDay < h"
  proof -
    have m: "matches rt (urgentQuery now) d"
      using that by (simp add: matches_urgentQuery num_ge_def num_lt_def)
    have n: "\<not> matches rt (urgentQuery now) (d \<lparr> caseId := k, c_priorityScore := Fin 70 \<rparr>)"
      using that by (auto simp: matches_urgentQuery num_ge_def num_lt_def)
    from m n that(1) show ?thesis
      by (simp add: getUrgentCases_eq sortByScoreDesc_def limitTo_def)
  qed
  from a b s show ?thesis
    unfolding matches_urgentQuery by blast
qed

lemma pastHearingCase_selected:
  "getUrgentCases sampleRuntime sampleWorld 10 sampleNow [pastHearingCase] = Inr [pastHearingCase]"
proof -
  have "matches sampleRuntime (urgentQuery sampleNow) pastHearingCase"
    by (simp add: matches_urgentQuery pastHearingCase_fields msPerDay_def)
  then show ?thesis
    by (simp add: getUrgentCases_eq sortByScoreDesc_def limitTo_def sampleWorld_def)
qed

text \<open>
  C9 (counterexample). A case in progress with priority score 50 and no delay, whose
  hearing date lies 30 days in the past, is returned by the urgent-cases query: the
  filter bounds the hearing date from above only.
\<close>

theorem urgent_cases_past_hearing:
  "getUrgentCases sampleRuntime sampleWorld 10 sampleNow [pastHearingCase] = Inr [pastHearingCase]
   \<and> \<not> num_ge (c_priorityScore pastHearingCase) (Fin 80)
   \<and> \<not> isDelayed (delayInfo pastHearingCase)
   \<and> hearingDate pastHearingCase = Some (DateAt (sampleNow - 30 * msPerDay))
   \<and> sampleNow - 30 * msPerDay < sampleNow - 7 * msPerDay"
  using pastHearingCase_selected
  by (simp add: pastHearingCase_fields num_ge_def num_lt_def msPerDay_def)

theorem urgent_cases_selected_witness:
  "findOk sampleWorld
   \<and> status urgentCase \<notin> {completed, dismissed, settled}
   \<and> c_priorityScore urgentCase = Fin 82
   \<and> getUrgentCases sampleRuntime sampleWorld 10 sampleNow
        [urgentCase, urgentCase \<lparr> caseId := 2, c_priorityScore := Fin 70 \<rparr>]
       = Inr [urgentCase]
   \<and> getUrgentCases sampleRuntime sampleWorld 10 sampleNow [pastHearingCase]
       = Inr [pastHearingCase]
   \<and> pastHearingCase \<in> set [pastHearingCase]
   \<and> status pastHearingCase \<notin> {completed, dismissed, settled}
   \<and> (\<exists>h. hearingDate pastHearingCase = Some (DateAt h) \<and> h \<le> sampleNow + 7 * msPerDay)
   \<and> length [pastHearingCase] \<le> 10"
proof -
  have f: "findOk sampleWorld"
    by (simp add: sampleWorld_def)
  have p: "getUrgentCases sampleRuntime sampleWorld 10 sampleNow [pastHearingCase]
             = Inr [pastHearingCase]"
    by (rule pastHearingCase_selected)
  from urgent_cases_selected
         [of sampleRuntime sampleWorld 10 sampleNow "[pastHearingCase]" "[pastHearingCase]"
            pastHearingCase urgentCase 2]
       f p
  show ?thesis
    by (simp add: urgentCase_fields pastHearingCase_fields msPerDay_def)
qed

section \<open>The case selector\<close>

lemma castOk_analysisQuery:
  "castOk rt (analysisQuery now) = (Date_parse rt ''$updatedAt'' \<noteq> None)"
  by (simp add: analysisQuery_def clauseCastOk_def castDate_def)

lemma getCasesForAnalysis_rejected:
  "Date_parse rt ''$updatedAt'' = None \<Longrightarrow> getCasesForAnalysis rt w now store = Inl CastError"
  by (simp add: getCasesForAnalysis_def Case_find_def bindE_def castOk_analysisQuery)

text \<open>
  C5 (evaluation at the failing input). The third alternative of the selector's filter
  compares \<open>aiAnalysis.lastAnalyzed\<close> with the string \<open>$updatedAt\<close>. The string is
  not a date, so the filter cannot be cast and the query is rejected with a CastError:
  the selector returns no list, and an active case analysed within the last 24 hours
  and modified since is not selected.
\<close>

theorem selector_rejects_query:
  assumes "Date_parse rt ''$updatedAt'' = None"
  shows "getCasesForAnalysis rt w now store = Inl CastError
         \<and> (\<forall>cs. getCasesForAnalysis rt w now store \<noteq> Inr cs)"
  using getCasesForAnalysis_rejected [OF assms] by simp

theorem selector_rejects_query_witness:
  "Date_parse sampleRuntime ''$updatedAt'' = None
   \<and> status sampleCase = assigned
   \<and> lastAnalyzed (aiAnalysis sampleCase) = Some (sampleNow - 60 * 60 * 1000)
   \<and> updatedAt sampleCase = sampleNow - 30 * 60 * 1000
   \<and> sampleNow - 24 * 60 * 60 * 1000 < sampleNow - 60 * 60 * 1000
   \<and> sampleNow - 60 * 60 * 1000 < sampleNow - 30 * 60 * 1000
   \<and> getCasesForAnalysis sampleRuntime sampleWorld sampleNow [sampleCase] = Inl CastError"
proof -
  have d: "Date_parse sampleRuntime ''$updatedAt'' = None"
    by (simp add: sampleRuntime_def)
  from selector_rejects_query [OF d, of sampleWorld sampleNow "[sampleCase]"] d
  show ?thesis
    by (simp add: sampleCase_fields)
qed

lemma matches_analysisQuery:
  "matches rt (analysisQuery now) c
     = (status c \<notin> {completed, dismissed, settled}
        \<and> (lastAnalyzed (aiAnalysis c) = None
            \<or> (\<exists>t. lastAnalyzed (aiAnalysis c) = Some t \<and> t < now - 24 * 60 * 60 * 1000)
            \<or> (status c \<in> {assigned, in_progress, awaiting_hearing}
                \<and> (\<exists>t u. lastAnalyzed (aiAnalysis c) = Some t
                          \<and> Date_parse rt ''$updatedAt'' = Some u \<and> t < u))))"
  by (auto simp: analysisQuery_def matchClause_def castDate_def terminalStatuses_def
      split: option.splits)

lemma getCasesForAnalysis_result:
  assumes "getCasesForAnalysis rt w now store = Inr cs"
  shows "cs = take 20 (filter (matches rt (analysisQuery now)) store)"
  using assms
  by (auto simp: getCasesForAnalysis_def Case_find_def bindE_def split: if_splits)

lemma freshCase_matches: "matches rt (analysisQuery sampleNow) freshCase"
  by (simp add: matches_analysisQuery freshCase_def sampleCase_def)

text \<open>
  C6. A case analysed at time \<open>t\<close> does not match the filter of the selector at any
  time \<open>now\<close> up to 24 hours after \<open>t\<close> (in particular at \<open>now = t\<close>), whatever
  its status and other fields: it is not never-analysed, its analysis is not older than
  24 hours, and the comparison of the third alternative does not hold for it, neither
  under a runtime that does not read the operand \<open>$updatedAt\<close> as a date (the query is
  then rejected as a whole) nor under one that reads it as a date that is not after
  \<open>t\<close>. So no list the selector returns holds the case, while a case that was never
  analysed does match the same filter.
\<close>

theorem analysed_case_not_reselected:
  assumes "lastAnalyzed (aiAnalysis c) = Some t"
    and "now - 24 * 60 * 60 * 1000 \<le> t"
    and "\<forall>u. Date_parse rt ''$updatedAt'' = Some u \<longrightarrow> u \<le> t"
  shows "\<not> matches rt (analysisQuery now) c
         \<and> (\<forall>cs. getCasesForAnalysis rt w now store = Inr cs \<longrightarrow> c \<notin> set cs)
         \<and> (Date_parse rt ''$updatedAt'' = None
              \<longrightarrow> getCasesForAnalysis rt w now store = Inl CastError)"
proof -
  have m: "\<not> matches rt (analysisQuery now) c"
    using assms by (auto simp: matches_analysisQuery)
  have "c \<notin> set cs" if "getCasesForAnalysis rt w now store = Inr cs" for cs
  proof
    assume "c \<in> set cs"
    then have "c \<in> set (filter (matches rt (analysisQuery now)) store)"
      unfolding getCasesForAnalysis_result [OF that] by (rule in_set_takeD)
    with m show False
      by simp
  qed
  with m show ?thesis
    by (simp add: getCasesForAnalysis_rejected)
qed

theorem analysed_case_not_reselected_witness:
  "lastAnalyzed (aiAnalysis (applyAnalysis sampleRuntime sampleNow sampleCase defaultAnalysis))
     = Some sampleNow
   \<and> Date_parse sampleRuntime ''$updatedAt'' = None
   \<and> \<not> matches sampleRuntime (analysisQuery sampleNow)
         (applyAnalysis sampleRuntime sampleNow sampleCase defaultAnalysis)
   \<and> \<not> matches sampleRuntime (analysisQuery (sampleNow + 1000))
         (applyAnalysis sampleRuntime sampleNow sampleCase defaultAnalysis)
   \<and> matches sampleRuntime (analysisQuery sampleNow) freshCase
   \<and> getCasesForAnalysis sampleRuntime sampleWorld sampleNow
        [freshCase, applyAnalysis sampleRuntime sampleNow sampleCase defaultAnalysis]
       = Inl CastError
   \<and> Date_parse lenientRuntime ''$updatedAt'' = Some 0
   \<and> getCasesForAnalysis lenientRuntime sampleWorld sampleNow
        [freshCase, applyAnalysis lenientRuntime sampleNow sampleCase defaultAnalysis]
       = Inr [freshCase]
   \<and> applyAnalysis lenientRuntime sampleNow sampleCase defaultAnalysis \<notin> set [freshCase]"
proof -
  let ?c = "applyAnalysis sampleRuntime sampleNow sampleCase defaultAnalysis"
  let ?c' = "applyAnalysis lenientRuntime sampleNow sampleCase defaultAnalysis"
  have l: "lastAnalyzed (aiAnalysis ?c) = Some sampleNow"
    and l': "lastAnalyzed (aiAnalysis ?c') = Some sampleNow"
    by (simp_all add: applyAnalysis_def Let_def split: option.splits)
  have t: "sampleNow - 24 * 60 * 60 * 1000 \<le> sampleNow"
    and t1: "sampleNow + 1000 - 24 * 60 * 60 * 1000 \<le> sampleNow"
    by simp_all
  have d: "\<forall>u. Date_parse sampleRuntime ''$updatedAt'' = Some u \<longrightarrow> u \<le> sampleNow"
    and n: "Date_parse sampleRuntime ''$updatedAt'' = None"
    by (simp_all add: sampleRuntime_def)
  have d': "\<forall>u. Date_parse lenientRuntime ''$updatedAt'' = Some u \<longrightarrow> u \<le> sampleNow"
    and n': "Date_parse lenientRuntime ''$updatedAt'' = Some 0"
    by (simp_all add: lenientRuntime_def sampleNow_def)
  note a = analysed_case_not_reselected [OF l t d, of sampleWorld "[freshCase, ?c]"]
  note a1 = analysed_case_not_reselected [OF l t1 d, of sampleWorld "[]"]
  note a' = analysed_case_not_reselected [OF l' t d', of sampleWorld "[freshCase, ?c']"]
  have c: "castOk lenientRuntime (analysisQuery sampleNow)"
    by (simp add: castOk_analysisQuery n')
  from a' c have g: "getCasesForAnalysis lenientRuntime sampleWorld sampleNow [freshCase, ?c']
                      = Inr [freshCase]"
    by (simp add: getCasesForAnalysis_def Case_find_def bindE_def sampleWorld_def
        freshCase_matches)
  from a' g have "?c' \<notin> set [freshCase]"
    by blast
  with a a1 n n' g l freshCase_matches [of sampleRuntime] show ?thesis
    by simp
qed

section \<open>The batch orchestrator\<close>

declare runBatches.simps [simp del]

declare chunk.simps [simp del]

lemma batchesOf_simps:
  "batchesOf [] = []"
  "batchesOf (e # evs) = batchIds e @ batchesOf evs"
  "batchesOf (xs @ ys) = batchesOf xs @ batchesOf ys"
  by (simp_all add: batchesOf_def)

lemma attemptsOf_simps:
  "attemptsOf [] = []"
  "attemptsOf (e # evs) = attemptId e @ attemptsOf evs"
  "attemptsOf (xs @ ys) = attemptsOf xs @ attemptsOf ys"
  by (simp_all add: attemptsOf_def)

lemma delaysOf_simps:
  "delaysOf [] = []"
  "delaysOf (e # evs) = delayMs e @ delaysOf evs"
  "delaysOf (xs @ ys) = delaysOf xs @ delaysOf ys"
  by (simp_all add: delaysOf_def)

lemma outline_simps:
  "outline [] = []"
  "outline (e # evs) = (if isCaseDone e then outline evs else e # outline evs)"
  "outline (xs @ ys) = outline xs @ outline ys"
  by (simp_all add: outline_def)

lemma processCaseBatch_Cons:
  "snd (processCaseBatch rt w now (d # ds) store)
     = CaseDone (caseId d) (snd (analyzeSingleCase rt w now d store))
       # snd (processCaseBatch rt w now ds (fst (analyzeSingleCase rt w now d store)))"
  by (simp add: Let_def split: prod.splits)

lemma processCaseBatch_trace:
  "batchesOf (snd (processCaseBatch rt w now b store)) = []
   \<and> delaysOf (snd (processCaseBatch rt w now b store)) = []
   \<and> outline (snd (processCaseBatch rt w now b store)) = []
   \<and> attemptsOf (snd (processCaseBatch rt w now b store)) = map caseId b"
proof (induction b arbitrary: store)
  case Nil
  show ?case
    by (simp add: batchesOf_simps delaysOf_simps outline_simps attemptsOf_simps)
next
  case (Cons d ds)
  from Cons [of "fst (analyzeSingleCase rt w now d store)"] show ?case
    by (simp add: processCaseBatch_Cons batchesOf_simps delaysOf_simps outline_simps
        attemptsOf_simps del: processCaseBatch.simps)
qed

lemma separate_Cons: "separate s (x # xs) = x # (if xs = [] then [] else s # separate s xs)"
  by (cases xs) simp_all

lemma div5_zero: "((x::nat) div 5 = 0) = (x < 5)"
  by (simp add: div_eq_0_iff)

lemma div5_add: "((a::nat) + 5) div 5 = Suc (a div 5)"
  by simp

lemma batch_count_shift:
  fixes i n :: nat
  shows "(n - Suc i) div 5 = (n - (i + 5) + 4) div 5"
proof (cases "i + 5 \<le> n")
  case True
  then have "n - Suc i = n - (i + 5) + 4"
    by linarith
  then show ?thesis
    by (simp only:)
next
  case False
  then have "n - Suc i < 5" and "n - (i + 5) + 4 < 5"
    by linarith+
  then show ?thesis
    by (simp only: div5_zero [symmetric])
qed

lemma batch_count_step:
  assumes "i < n"
  shows "(n - i + 4) div 5 = Suc ((n - (i + 5) + 4) div 5)"
proof -
  from assms have "n - i + 4 = (n - Suc i) + 5"
    by linarith
  then have "(n - i + 4) div 5 = Suc ((n - Suc i) div 5)"
    by (simp only: div5_add)
  then show ?thesis
    by (simp only: batch_count_shift)
qed

lemma batch_count_zero:
  fixes i n :: nat
  shows "((n - (i + 5) + 4) div 5 = 0) = (\<not> i + 5 < n)"
proof -
  have "(n - (i + 5) + 4 < 5) = (\<not> i + 5 < n)"
    by linarith
  then show ?thesis
    by (simp only: div5_zero)
qed

lemma batch_count_more:
  assumes "i + 5 < n"
  shows "(n - i + 4) div 5 - 1 = Suc ((n - (i + 5) + 4) div 5 - 1)"
proof -
  from assms have "i < n"
    by simp
  from assms batch_count_zero [of n i] have "0 < (n - (i + 5) + 4) div 5"
    by simp
  with batch_count_step [OF \<open>i < n\<close>] show ?thesis
    by simp
qed

lemma batch_count_last:
  fixes i n :: nat
  assumes "\<not> i + 5 < n"
  shows "(n - i + 4) div 5 - 1 = 0"
proof (cases "i < n")
  case True
  from assms batch_count_zero [of n i] have "(n - (i + 5) + 4) div 5 = 0"
    by simp
  with batch_count_step [OF True] show ?thesis
    by simp
next
  case False
  then have "n - i + 4 < 5"
    by linarith
  then have "(n - i + 4) div 5 = 0"
    by (simp only: div5_zero)
  then show ?thesis
    by simp
qed

lemma batch_count_from_start: "(length cs - 0 + 4) div 5 = (length cs + 4) div 5"
  by simp

lemma batch_count_rest:
  fixes i n :: nat
  assumes "\<not> i + 5 < n"
  shows "(n - (i + 5) + 4) div 5 - 1 = 0"
  using assms batch_count_zero [of n i] by simp

lemma runBatches_unfold:
  "i < length cs \<Longrightarrow>
   snd (runBatches rt w now i cs store)
     = BatchStart (map caseId (take 5 (drop i cs)))
       # snd (processCaseBatch rt w now (take 5 (drop i cs)) store)
       @ (if i + 5 < length cs then [Delay 2000] else [])
       @ snd (runBatches rt w now (i + 5) cs
               (fst (processCaseBatch rt w now (take 5 (drop i cs)) store)))"
  by (subst runBatches.simps)
     (simp add: Let_def slice_def batchSize_def split: prod.splits)

lemma runBatches_done:
  "\<not> i < length cs \<Longrightarrow> snd (runBatches rt w now i cs store) = []"
  by (subst runBatches.simps) simp

lemma runBatches_trace:
  "concat (batchesOf (snd (runBatches rt w now i cs store))) = map caseId (drop i cs)
   \<and> attemptsOf (snd (runBatches rt w now i cs store)) = map caseId (drop i cs)
   \<and> length (batchesOf (snd (runBatches rt w now i cs store))) = (length cs - i + 4) div 5
   \<and> (\<forall>b \<in> set (batchesOf (snd (runBatches rt w now i cs store))). 0 < length b \<and> length b \<le> 5)
   \<and> outline (snd (runBatches rt w now i cs store))
       = separate (Delay 2000) (map BatchStart (batchesOf (snd (runBatches rt w now i cs store))))
   \<and> delaysOf (snd (runBatches rt w now i cs store))
       = replicate ((length cs - i + 4) div 5 - 1) 2000"
proof (induction rt w now i cs store rule: runBatches.induct)
  case (1 rt w now i cs store)
  show ?case
  proof (cases "i < length cs")
    case False
    then show ?thesis
      by (simp add: runBatches_done batchesOf_simps attemptsOf_simps outline_simps delaysOf_simps)
  next
    case True
    let ?b = "take 5 (drop i cs)"
    let ?pb = "snd (processCaseBatch rt w now ?b store)"
    let ?s1 = "fst (processCaseBatch rt w now ?b store)"
    let ?rest = "snd (runBatches rt w now (i + 5) cs ?s1)"
    let ?pause = "if i + 5 < length cs then [Delay 2000] else []"
    let ?evs = "snd (runBatches rt w now i cs store)"
    have ih:
      "concat (batchesOf ?rest) = map caseId (drop (i + 5) cs)
       \<and> attemptsOf ?rest = map caseId (drop (i + 5) cs)
       \<and> length (batchesOf ?rest) = (length cs - (i + 5) + 4) div 5
       \<and> (\<forall>b \<in> set (batchesOf ?rest). 0 < length b \<and> length b \<le> 5)
       \<and> outline ?rest = separate (Delay 2000) (map BatchStart (batchesOf ?rest))
       \<and> delaysOf ?rest = replicate ((length cs - (i + 5) + 4) div 5 - 1) 2000"
      using "1.IH" [OF True refl refl prod.collapse refl]
      by (unfold slice_def batchSize_def add_diff_cancel_left') assumption
    note ih1 = ih [THEN conjunct1]
      and ih2 = ih [THEN conjunct2, THEN conjunct1]
      and ih3 = ih [THEN conjunct2, THEN conjunct2, THEN conjunct1]
      and ih4 = ih [THEN conjunct2, THEN conjunct2, THEN conjunct2, THEN conjunct1]
      and ih5 = ih [THEN conjunct2, THEN conjunct2, THEN conjunct2, THEN conjunct2,
                    THEN conjunct1]
      and ih6 = ih [THEN conjunct2, THEN conjunct2, THEN conjunct2, THEN conjunct2,
                    THEN conjunct2]
    note pb = processCaseBatch_trace [of rt w now ?b store]
    note pb1 = pb [THEN conjunct1]
      and pb2 = pb [THEN conjunct2, THEN conjunct1]
      and pb3 = pb [THEN conjunct2, THEN conjunct2, THEN conjunct1]
      and pb4 = pb [THEN conjunct2, THEN conjunct2, THEN conjunct2]
    have u: "?evs = BatchStart (map caseId ?b) # ?pb @ ?pause @ ?rest"
      by (rule runBatches_unfold [OF True])
    have "?b @ drop (i + 5) cs = drop i cs"
      by (metis add.commute append_take_drop_id drop_drop)
    then have sp: "map caseId ?b @ map caseId (drop (i + 5) cs) = map caseId (drop i cs)"
      by (metis map_append)
    have bs: "batchesOf ?evs = map caseId ?b # batchesOf ?rest"
      unfolding u using pb1 by (simp add: batchesOf_simps)
    have ne: "(batchesOf ?rest = []) = (\<not> i + 5 < length cs)"
      using ih3 batch_count_zero [of "length cs" i] by (simp only: length_0_conv [symmetric])
    have lb: "0 < length (map caseId ?b) \<and> length (map caseId ?b) \<le> 5"
      using True by simp
    have c1: "concat (batchesOf ?evs) = map caseId (drop i cs)"
      unfolding bs by (simp only: concat.simps ih1 sp)
    have "attemptsOf ?evs = map caseId ?b @ attemptsOf ?rest"
      unfolding u using pb4 by (simp add: attemptsOf_simps)
    then have c2: "attemptsOf ?evs = map caseId (drop i cs)"
      by (simp only: ih2 sp)
    have c3: "length (batchesOf ?evs) = (length cs - i + 4) div 5"
      unfolding bs by (simp only: list.size ih3 batch_count_step [OF True] length_Cons)
    have c4: "\<forall>b \<in> set (batchesOf ?evs). 0 < length b \<and> length b \<le> 5"
      unfolding bs using ih4 lb by simp
    have c5: "outline ?evs = separate (Delay 2000) (map BatchStart (batchesOf ?evs))"
    proof (cases "i + 5 < length cs")
      case True
      with ne have n: "batchesOf ?rest \<noteq> []" by simp
      have "outline ?evs = BatchStart (map caseId ?b) # Delay 2000 # outline ?rest"
        unfolding u using True pb3 by (simp add: outline_simps)
      also have "\<dots> = separate (Delay 2000) (map BatchStart (batchesOf ?evs))"
        unfolding bs using n ih5 by (simp add: separate_Cons)
      finally show ?thesis .
    next
      case False
      with ne have e: "batchesOf ?rest = []" by simp
      from ih5 have o: "outline ?rest = []"
        unfolding e by simp
      have "outline ?evs = [BatchStart (map caseId ?b)]"
        unfolding u using False pb3 o by (simp add: outline_simps)
      also have "\<dots> = separate (Delay 2000) (map BatchStart (batchesOf ?evs))"
        unfolding bs using e by simp
      finally show ?thesis .
    qed
    have c6: "delaysOf ?evs = replicate ((length cs - i + 4) div 5 - 1) 2000"
    proof (cases "i + 5 < length cs")
      case True
      have "delaysOf ?evs = 2000 # delaysOf ?rest"
        unfolding u using True pb2 by (simp add: delaysOf_simps)
      then show ?thesis
        by (simp only: ih6 batch_count_more [OF True] replicate_Suc)
    next
      case False
      have "delaysOf ?evs = delaysOf ?rest"
        unfolding u using False pb2 by (simp add: delaysOf_simps)
      then show ?thesis
        by (simp only: ih6 batch_count_last [OF False] batch_count_rest [OF False])
    qed
    from c1 c2 c3 c4 c5 c6 show ?thesis
      by (intro conjI)
  qed
qed

lemma chunk_step: "xs \<noteq> [] \<Longrightarrow> chunk 5 xs = take 5 xs # chunk 5 (drop 5 xs)"
  by (subst chunk.simps) simp

lemma chunk_Nil: "chunk n [] = []"
  by (subst chunk.simps) simp

lemma runBatches_batches:
  "batchesOf (snd (runBatches rt w now i cs store)) = map (map caseId) (chunk 5 (drop i cs))"
proof (induction rt w now i cs store rule: runBatches.induct)
  case (1 rt w now i cs store)
  show ?case
  proof (cases "i < length cs")
    case False
    then show ?thesis
      by (simp add: runBatches_done batchesOf_simps chunk_Nil)
  next
    case True
    let ?b = "take 5 (drop i cs)"
    let ?pb = "snd (processCaseBatch rt w now ?b store)"
    let ?s1 = "fst (processCaseBatch rt w now ?b store)"
    let ?rest = "snd (runBatches rt w now (i + 5) cs ?s1)"
    have ih: "batchesOf ?rest = map (map caseId) (chunk 5 (drop (i + 5) cs))"
      using "1.IH" [OF True refl refl prod.collapse refl]
      by (unfold slice_def batchSize_def add_diff_cancel_left') assumption
    have d: "drop 5 (drop i cs) = drop (i + 5) cs"
      by (simp add: add.commute)
    from True have "drop i cs \<noteq> []"
      by simp
    from chunk_step [OF this]
    have c: "chunk 5 (drop i cs) = ?b # chunk 5 (drop (i + 5) cs)"
      by (simp only: d)
    have "batchesOf (snd (runBatches rt w now i cs store)) = map caseId ?b # batchesOf ?rest"
      unfolding runBatches_unfold [OF True]
      using processCaseBatch_trace [of rt w now ?b store]
      by (simp add: batchesOf_simps)
    then show ?thesis
      by (simp only: ih c list.map)
  qed
qed

lemma chunk_empty: "(chunk 5 xs = []) = (xs = [])"
  by (subst chunk.simps) simp

lemma analyzeSingleCase_outcome:
  "snd (analyzeSingleCase rt w now d store) = snd (analyzeSingleCase rt w now d store')"
proof (cases "getAIAnalysis w d")
  case (Inl e)
  then show ?thesis
    by (simp add: analyzeSingleCase_def)
next
  case (Inr r)
  show ?thesis
  proof (cases "noteContent rt (parseAIResponse rt r)")
    case (Inl e)
    with Inr show ?thesis
      by (simp add: analyzeSingleCase_def updateCaseWithAIAnalysis_def bindE_def)
  next
    case c: (Inr c)
    from Inr update_with_content [OF c] show ?thesis
      by (simp add: analyzeSingleCase_def)
  qed
qed

lemma processCaseBatch_events:
  "snd (processCaseBatch rt w now b store)
     = map (\<lambda>d. CaseDone (caseId d) (snd (analyzeSingleCase rt w now d store0))) b"
proof (induction b arbitrary: store)
  case Nil
  show ?case
    by simp
next
  case (Cons d ds)
  from Cons [of "fst (analyzeSingleCase rt w now d store)"]
       analyzeSingleCase_outcome [of rt w now d store store0]
  show ?case
    by (simp add: processCaseBatch_Cons del: processCaseBatch.simps)
qed

lemma processCaseBatch_store:
  "fst (processCaseBatch rt w now b store)
     = foldl (\<lambda>s d. fst (analyzeSingleCase rt w now d s)) store b"
proof (induction b arbitrary: store)
  case Nil
  show ?case
    by simp
next
  case (Cons d ds)
  have "fst (processCaseBatch rt w now (d # ds) store)
          = fst (processCaseBatch rt w now ds (fst (analyzeSingleCase rt w now d store)))"
    by (simp add: Let_def split: prod.splits)
  with Cons [of "fst (analyzeSingleCase rt w now d store)"] show ?case
    by (simp del: processCaseBatch.simps)
qed

lemma runBatches_fst_unfold:
  "i < length cs \<Longrightarrow>
   fst (runBatches rt w now i cs store)
     = fst (runBatches rt w now (i + 5) cs
             (fst (processCaseBatch rt w now (take 5 (drop i cs)) store)))"
  by (subst runBatches.simps)
     (simp add: Let_def slice_def batchSize_def split: prod.splits)

lemma runBatches_fst_done:
  "\<not> i < length cs \<Longrightarrow> fst (runBatches rt w now i cs store) = store"
  by (subst runBatches.simps) simp

lemma runBatches_store:
  "fst (runBatches rt w now i cs store)
     = foldl (\<lambda>s d. fst (analyzeSingleCase rt w now d s)) store (drop i cs)"
proof (induction rt w now i cs store rule: runBatches.induct)
  case (1 rt w now i cs store)
  show ?case
  proof (cases "i < length cs")
    case False
    then show ?thesis
      by (simp add: runBatches_fst_done)
  next
    case True
    let ?b = "take 5 (drop i cs)"
    let ?s1 = "fst (processCaseBatch rt w now ?b store)"
    let ?f = "\<lambda>s d. fst (analyzeSingleCase rt w now d s)"
    have ih: "fst (runBatches rt w now (i + 5) cs ?s1) = foldl ?f ?s1 (drop (i + 5) cs)"
      using "1.IH" [OF True refl refl prod.collapse refl]
      by (unfold slice_def batchSize_def add_diff_cancel_left') assumption
    have "?b @ drop (i + 5) cs = drop i cs"
      by (metis add.commute append_take_drop_id drop_drop)
    then have fa: "foldl ?f (foldl ?f store ?b) (drop (i + 5) cs) = foldl ?f store (drop i cs)"
      by (metis foldl_append)
    have a: "fst (runBatches rt w now i cs store) = foldl ?f ?s1 (drop (i + 5) cs)"
      by (simp only: runBatches_fst_unfold [OF True] ih)
    have b: "?s1 = foldl ?f store ?b"
      by (rule processCaseBatch_store)
    show ?thesis
      unfolding a b by (rule fa)
  qed
qed

lemma runBatches_outcomes:
  "filter isCaseDone (snd (runBatches rt w now i cs store))
     = map (\<lambda>d. CaseDone (caseId d) (snd (analyzeSingleCase rt w now d store0))) (drop i cs)"
proof (induction rt w now i cs store rule: runBatches.induct)
  case (1 rt w now i cs store)
  show ?case
  proof (cases "i < length cs")
    case False
    then show ?thesis
      by (simp add: runBatches_done)
  next
    case True
    let ?b = "take 5 (drop i cs)"
    let ?g = "\<lambda>d. CaseDone (caseId d) (snd (analyzeSingleCase rt w now d store0))"
    let ?s1 = "fst (processCaseBatch rt w now ?b store)"
    let ?rest = "snd (runBatches rt w now (i + 5) cs ?s1)"
    have ih: "filter isCaseDone ?rest = map ?g (drop (i + 5) cs)"
      using "1.IH" [OF True refl refl prod.collapse refl]
      by (unfold slice_def batchSize_def add_diff_cancel_left') assumption
    have "?b @ drop (i + 5) cs = drop i cs"
      by (metis add.commute append_take_drop_id drop_drop)
    then have sp: "map ?g ?b @ map ?g (drop (i + 5) cs) = map ?g (drop i cs)"
      by (metis map_append)
    have "filter isCaseDone (map ?g ?b) = map ?g ?b"
      by (simp add: filter_map o_def)
    then have "filter isCaseDone (snd (runBatches rt w now i cs store))
                 = map ?g ?b @ filter isCaseDone ?rest"
      unfolding runBatches_unfold [OF True] processCaseBatch_events [of rt w now ?b store store0]
      by simp
    then show ?thesis
      by (simp only: ih sp)
  qed
qed

lemma runBatches_events:
  "snd (runBatches rt w now i cs store)
     = concat (separate [Delay 2000]
         (map (\<lambda>b. BatchStart (map caseId b)
                    # map (\<lambda>d. CaseDone (caseId d) (snd (analyzeSingleCase rt w now d store0))) b)
            (chunk 5 (drop i cs))))"
proof (induction rt w now i cs store rule: runBatches.induct)
  case (1 rt w now i cs store)
  show ?case
  proof (cases "i < length cs")
    case False
    then show ?thesis
      by (simp add: runBatches_done chunk_Nil)
  next
    case True
    let ?b = "take 5 (drop i cs)"
    let ?g = "\<lambda>d. CaseDone (caseId d) (snd (analyzeSingleCase rt w now d store0))"
    let ?h = "\<lambda>b. BatchStart (map caseId b) # map ?g b"
    let ?s1 = "fst (processCaseBatch rt w now ?b store)"
    let ?rest = "snd (runBatches rt w now (i + 5) cs ?s1)"
    let ?tl = "chunk 5 (drop (i + 5) cs)"
    have ih: "?rest = concat (separate [Delay 2000] (map ?h ?tl))"
      using "1.IH" [OF True refl refl prod.collapse refl]
      by (unfold slice_def batchSize_def add_diff_cancel_left') assumption
    have d: "drop 5 (drop i cs) = drop (i + 5) cs"
      by (simp add: add.commute)
    from True have "drop i cs \<noteq> []"
      by simp
    from chunk_step [OF this]
    have c: "chunk 5 (drop i cs) = ?b # ?tl"
      by (simp only: d)
    have e: "(?tl = []) = (\<not> i + 5 < length cs)"
      by (auto simp: chunk_empty)
    have u: "snd (runBatches rt w now i cs store)
               = ?h ?b @ (if i + 5 < length cs then [Delay 2000] else []) @ ?rest"
      unfolding runBatches_unfold [OF True] processCaseBatch_events [of rt w now ?b store store0]
      by simp
    show ?thesis
    proof (cases "i + 5 < length cs")
      case True
      with e have "?tl \<noteq> []"
        by simp
      then have "concat (separate [Delay 2000] (map ?h (?b # ?tl)))
                   = ?h ?b @ [Delay 2000] @ concat (separate [Delay 2000] (map ?h ?tl))"
        by (simp add: separate_Cons)
      with True show ?thesis
        unfolding u c ih by simp
    next
      case False
      with e have n: "?tl = []"
        by simp
      from False n show ?thesis
        unfolding u c ih by simp
    qed
  qed
qed

lemma analyzeSingleCase_failures:
  "(getAIAnalysis w d = Inl e \<longrightarrow> analyzeSingleCase rt w now d store = (store, Failed e))
   \<and> (getAIAnalysis w d = Inr r
        \<and> updateCaseWithAIAnalysis rt w now d (parseAIResponse rt r) store = Inl e
      \<longrightarrow> analyzeSingleCase rt w now d store = (store, Failed e))"
  by (simp add: analyzeSingleCase_def)
text \<open>
  C7. For every list of cases, every world (whatever scoring calls and saves fail) and
  every store, the trace of the loop is, batch by batch of \<open>chunk 5\<close> of the list, the
  dispatch of the batch followed by one event per case of the batch, in list order, whose
  outcome is the outcome of \<open>analyzeSingleCase\<close> for that case, with one delay of
  2000 ms between consecutive batches and none after the last; the store the loop leaves
  is the one the analyses of all cases leave, one after the other. So there are as many
  batches as the length divided by 5, rounded up, each of 1 to 5 cases; every case is
  attempted exactly once; seven cases give two batches and one delay; and a case whose
  scoring call or update fails with an error appears in the trace as failed with that
  error, among the events of all the other cases.
\<close>

theorem batches_dispatched:
  "snd (runBatches rt w now 0 cs store)
     = concat (separate [Delay 2000]
         (map (\<lambda>b. BatchStart (map caseId b)
                    # map (\<lambda>d. CaseDone (caseId d) (snd (analyzeSingleCase rt w now d store))) b)
            (chunk 5 cs)))
   \<and> fst (runBatches rt w now 0 cs store)
       = foldl (\<lambda>s d. fst (analyzeSingleCase rt w now d s)) store cs
   \<and> filter isCaseDone (snd (runBatches rt w now 0 cs store))
       = map (\<lambda>d. CaseDone (caseId d) (snd (analyzeSingleCase rt w now d store))) cs
   \<and> batchesOf (snd (runBatches rt w now 0 cs store)) = map (map caseId) (chunk 5 cs)
   \<and> length (batchesOf (snd (runBatches rt w now 0 cs store))) = (length cs + 4) div 5
   \<and> (\<forall>b \<in> set (batchesOf (snd (runBatches rt w now 0 cs store))).
         0 < length b \<and> length b \<le> 5)
   \<and> concat (batchesOf (snd (runBatches rt w now 0 cs store))) = map caseId cs
   \<and> outline (snd (runBatches rt w now 0 cs store))
       = separate (Delay 2000) (map BatchStart (batchesOf (snd (runBatches rt w now 0 cs store))))
   \<and> delaysOf (snd (runBatches rt w now 0 cs store))
       = replicate ((length cs + 4) div 5 - 1) 2000
   \<and> attemptsOf (snd (runBatches rt w now 0 cs store)) = map caseId cs
   \<and> (length cs = 7
        \<longrightarrow> length (batchesOf (snd (runBatches rt w now 0 cs store))) = 2
            \<and> delaysOf (snd (runBatches rt w now 0 cs store)) = [2000])
   \<and> (\<forall>d \<in> set cs. \<forall>e. getAIAnalysis w d = Inl e
        \<longrightarrow> CaseDone (caseId d) (Failed e) \<in> set (snd (runBatches rt w now 0 cs store)))
   \<and> (\<forall>d \<in> set cs. \<forall>r e. getAIAnalysis w d = Inr r
          \<and> updateCaseWithAIAnalysis rt w now d (parseAIResponse rt r) store = Inl e
        \<longrightarrow> CaseDone (caseId d) (Failed e) \<in> set (snd (runBatches rt w now 0 cs store)))"
proof -
  let ?T = "snd (runBatches rt w now 0 cs store)"
  let ?g = "\<lambda>d. CaseDone (caseId d) (snd (analyzeSingleCase rt w now d store))"
  note t = runBatches_trace [of rt w now 0 cs store]
  have ev: "?T = concat (separate [Delay 2000]
                   (map (\<lambda>b. BatchStart (map caseId b) # map ?g b) (chunk 5 cs)))"
    using runBatches_events [of rt w now 0 cs store store] by simp
  have st: "fst (runBatches rt w now 0 cs store)
              = foldl (\<lambda>s d. fst (analyzeSingleCase rt w now d s)) store cs"
    using runBatches_store [of rt w now 0 cs store] by simp
  have oc: "filter isCaseDone ?T = map ?g cs"
    using runBatches_outcomes [of rt w now 0 cs store store] by simp
  have seven: "length (batchesOf ?T) = 2 \<and> delaysOf ?T = [2000]"
    if "length cs = 7"
    using t that by simp
  have mem: "?g d \<in> set ?T" if "d \<in> set cs" for d
  proof -
    from that have "?g d \<in> set (map ?g cs)"
      by simp
    then have "?g d \<in> set (filter isCaseDone ?T)"
      by (simp only: oc)
    then show ?thesis
      by simp
  qed
  have f1: "CaseDone (caseId d) (Failed e) \<in> set ?T"
    if "d \<in> set cs" "getAIAnalysis w d = Inl e" for d e
    using mem [OF that(1)] that(2) by (simp add: analyzeSingleCase_def)
  have f2: "CaseDone (caseId d) (Failed e) \<in> set ?T"
    if "d \<in> set cs" "getAIAnalysis w d = Inr r"
       "updateCaseWithAIAnalysis rt w now d (parseAIResponse rt r) store = Inl e" for d r e
    using mem [OF that(1)] that(2,3) by (simp add: analyzeSingleCase_def)
  have bs: "batchesOf ?T = map (map caseId) (chunk 5 cs)"
    using runBatches_batches [of rt w now 0 cs store] by simp
  from t have t1: "length (batchesOf ?T) = (length cs + 4) div 5"
    and t2: "\<forall>b \<in> set (batchesOf ?T). 0 < length b \<and> length b \<le> 5"
    and t3: "concat (batchesOf ?T) = map caseId cs"
    and t4: "outline ?T = separate (Delay 2000) (map BatchStart (batchesOf ?T))"
    and t5: "delaysOf ?T = replicate ((length cs + 4) div 5 - 1) 2000"
    and t6: "attemptsOf ?T = map caseId cs"
    by simp_all
  from f1 have g1: "\<forall>d \<in> set cs. \<forall>e. getAIAnalysis w d = Inl e
        \<longrightarrow> CaseDone (caseId d) (Failed e) \<in> set ?T"
    by blast
  from f2 have g2: "\<forall>d \<in> set cs. \<forall>r e. getAIAnalysis w d = Inr r
          \<and> updateCaseWithAIAnalysis rt w now d (parseAIResponse rt r) store = Inl e
        \<longrightarrow> CaseDone (caseId d) (Failed e) \<in> set ?T"
    by blast
  from seven have sv: "length cs = 7 \<longrightarrow> length (batchesOf ?T) = 2 \<and> delaysOf ?T = [2000]"
    by blast
  show ?thesis
    by (intro conjI) (fact ev st oc bs t1 t2 t3 t4 t5 t6 sv g1 g2)+
qed

lemma sevenCases_ids: "map caseId sevenCases = [1, 2, 3, 4, 5, 6, 7]" "length sevenCases = 7"
  by (simp_all add: sevenCases_def)

lemma sampleResponse_note:
  \<open>noteContent sampleRuntime
     (parseAIResponse sampleRuntime
        (Some ''{"priorityScore": 88, "reasoning": "Hearing is near"}''))
     = Inr ''AI Analysis: Priority Score 88/100. Hearing is near''\<close>
proof -
  let ?a = \<open>parseAIResponse sampleRuntime
              (Some ''{"priorityScore": 88, "reasoning": "Hearing is near"}'')\<close>
  have p: \<open>?a = \<lparr> priorityScore = Fin 88, complexityScore = Fin 50, urgencyFactors = [],
         delayRiskFactors = [], estimatedDuration = Fin 30, successProbability = Fin 50,
         similarCasesCount = Fin 0, reasoning = JStr ''Hearing is near'' \<rparr>\<close>
    by (simp add: parseAIResponse_def sampleRuntime_def startsWith_def normalizeAnalysis_def
        bindE_def ToNumber_def js_or_def getProp_def Math_max_def Math_min_def num_lt_def
        arrayOrEmpty_def)
  show ?thesis
    unfolding p by (simp add: noteContent_def bindE_def sampleRuntime_def)
qed

lemma sevenCases_outcome:
  "snd (analyzeSingleCase sampleRuntime flakyWorld sampleNow (sampleCase \<lparr> caseId := i \<rparr>) store)
     = Failed (if i = 3 then NetworkError else ValidationError)"
proof (cases "i = 3")
  case True
  then show ?thesis
    by (simp add: analyzeSingleCase_def flakyWorld_def)
next
  case False
  then have g: \<open>getAIAnalysis flakyWorld (sampleCase \<lparr> caseId := i \<rparr>)
                  = Inr (Some ''{"priorityScore": 88, "reasoning": "Hearing is near"}'')\<close>
    by (simp add: flakyWorld_def sampleWorld_def)
  from False show ?thesis
    unfolding analyzeSingleCase_def g
    by (simp add: update_with_content [OF sampleResponse_note])
qed

lemma sevenCases_chunks:
  "chunk 5 sevenCases
     = [map (\<lambda>i. sampleCase \<lparr> caseId := i \<rparr>) [1, 2, 3, 4, 5],
        map (\<lambda>i. sampleCase \<lparr> caseId := i \<rparr>) [6, 7]]"
  by (simp add: sevenCases_def chunk_step chunk_Nil)

theorem batches_dispatched_witness:
  "length sevenCases = 7
   \<and> getAIAnalysis flakyWorld (sampleCase \<lparr> caseId := 3 \<rparr>) = Inl NetworkError
   \<and> snd (runBatches sampleRuntime flakyWorld sampleNow 0 sevenCases sevenCases)
       = [BatchStart [1, 2, 3, 4, 5],
          CaseDone 1 (Failed ValidationError), CaseDone 2 (Failed ValidationError),
          CaseDone 3 (Failed NetworkError), CaseDone 4 (Failed ValidationError),
          CaseDone 5 (Failed ValidationError),
          Delay 2000,
          BatchStart [6, 7],
          CaseDone 6 (Failed ValidationError), CaseDone 7 (Failed ValidationError)]
   \<and> fst (runBatches sampleRuntime flakyWorld sampleNow 0 sevenCases sevenCases) = sevenCases
   \<and> batchesOf (snd (runBatches sampleRuntime flakyWorld sampleNow 0 sevenCases sevenCases))
       = [[1, 2, 3, 4, 5], [6, 7]]
   \<and> delaysOf (snd (runBatches sampleRuntime flakyWorld sampleNow 0 sevenCases sevenCases))
       = [2000]
   \<and> attemptsOf (snd (runBatches sampleRuntime flakyWorld sampleNow 0 sevenCases sevenCases))
       = [1, 2, 3, 4, 5, 6, 7]
   \<and> outline (snd (runBatches sampleRuntime flakyWorld sampleNow 0 sevenCases sevenCases))
       = [BatchStart [1, 2, 3, 4, 5], Delay 2000, BatchStart [6, 7]]"
proof -
  let ?T = "snd (runBatches sampleRuntime flakyWorld sampleNow 0 sevenCases sevenCases)"
  note b = batches_dispatched [of sampleRuntime flakyWorld sampleNow sevenCases sevenCases]
  have g: "getAIAnalysis flakyWorld (sampleCase \<lparr> caseId := 3 \<rparr>) = Inl NetworkError"
    by (simp add: flakyWorld_def)
  have c: "map (map caseId) (chunk 5 sevenCases) = [[1, 2, 3, 4, 5], [6, 7]]"
    by (simp add: sevenCases_chunks)
  from b [THEN conjunct1]
  have tr: "?T = [BatchStart [1, 2, 3, 4, 5],
          CaseDone 1 (Failed ValidationError), CaseDone 2 (Failed ValidationError),
          CaseDone 3 (Failed NetworkError), CaseDone 4 (Failed ValidationError),
          CaseDone 5 (Failed ValidationError),
          Delay 2000,
          BatchStart [6, 7],
          CaseDone 6 (Failed ValidationError), CaseDone 7 (Failed ValidationError)]"
    by (simp add: sevenCases_chunks sevenCases_outcome)
  from b [THEN conjunct2, THEN conjunct1]
  have st: "fst (runBatches sampleRuntime flakyWorld sampleNow 0 sevenCases sevenCases)
              = sevenCases"
    by (simp add: sevenCases_def analyzeSingleCase_fails)
  from tr have o: "batchesOf ?T = [[1, 2, 3, 4, 5], [6, 7]]"
    and d: "delaysOf ?T = [2000]"
    and a: "attemptsOf ?T = [1, 2, 3, 4, 5, 6, 7]"
    and ol: "outline ?T = [BatchStart [1, 2, 3, 4, 5], Delay 2000, BatchStart [6, 7]]"
    by (simp_all add: batchesOf_def delaysOf_def attemptsOf_def outline_def)
  from g tr st o d a ol show ?thesis
    by (simp add: sevenCases_ids)
qed

section \<open>The hourly run\<close>

lemma logEvents_simps:
  "schedulerOf (logEvents evs s) = schedulerOf s"
  "caseStore (logEvents evs s) = caseStore s"
  "inFlight (logEvents evs s) = inFlight s"
  "eventLog (logEvents evs s) = eventLog s @ evs"
  by (simp_all add: logEvents_def)

lemma finallyClause_simps:
  "schedulerOf (finallyClause s) = (schedulerOf s) \<lparr> isProcessing := False \<rparr>"
  "caseStore (finallyClause s) = caseStore s"
  "inFlight (finallyClause s) = inFlight s"
  "eventLog (finallyClause s) = eventLog s"
  by (simp_all add: finallyClause_def)

lemma slice_batch: "slice i (i + batchSize) cs = take 5 (drop i cs)"
  by (simp add: slice_def batchSize_def)

lemma settleBatch_simps:
  "schedulerOf (settleBatch rt w now i cs s) = schedulerOf s"
  "caseStore (settleBatch rt w now i cs s)
     = fst (processCaseBatch rt w now (take 5 (drop i cs)) (caseStore s))"
  "inFlight (settleBatch rt w now i cs s) = inFlight s"
  "eventLog (settleBatch rt w now i cs s)
     = eventLog s @ snd (processCaseBatch rt w now (take 5 (drop i cs)) (caseStore s))"
  by (simp_all add: settleBatch_def Let_def slice_batch logEvents_simps)

lemma resumeRun_select_failed:
  "getCasesForAnalysis rt w t (caseStore s) = Inl e \<Longrightarrow>
   resumeRun rt w now (AwaitSelect t) s = (None, finallyClause (logEvents [SelectionFailed e] s))"
  by (simp add: resumeRun_def)

lemma resumeRun_select_empty:
  "getCasesForAnalysis rt w t (caseStore s) = Inr [] \<Longrightarrow>
   resumeRun rt w now (AwaitSelect t) s = (None, finallyClause (logEvents [NoCases] s))"
  by (simp add: resumeRun_def)

lemma resumeRun_select_cases:
  "getCasesForAnalysis rt w t (caseStore s) = Inr cs \<Longrightarrow> cs \<noteq> [] \<Longrightarrow>
   resumeRun rt w now (AwaitSelect t) s = loopTest now 0 cs s"
  by (simp add: resumeRun_def)

lemma resumeRun_batch_more:
  "i + 5 < length cs \<Longrightarrow>
   resumeRun rt w now (AwaitBatch i cs) s
     = (Some (AwaitDelay i cs), logEvents [Delay 2000] (settleBatch rt w now i cs s))"
  by (simp add: resumeRun_def batchSize_def Let_def)

lemma resumeRun_batch_last:
  "\<not> i + 5 < length cs \<Longrightarrow>
   resumeRun rt w now (AwaitBatch i cs) s = loopTest now (i + 5) cs (settleBatch rt w now i cs s)"
  by (simp add: resumeRun_def batchSize_def Let_def)

lemma resumeRun_delay:
  "resumeRun rt w now (AwaitDelay i cs) s = loopTest now (i + 5) cs s"
  by (simp add: resumeRun_def batchSize_def)

lemma loopTest_next:
  "i < length cs \<Longrightarrow>
   loopTest now i cs s
     = (Some (AwaitBatch i cs), logEvents [BatchStart (map caseId (take 5 (drop i cs)))] s)"
  by (simp add: loopTest_def slice_batch)

lemma loopTest_end:
  "\<not> i < length cs \<Longrightarrow>
   loopTest now i cs s
     = (None, finallyClause (logEvents [Completed]
                (s \<lparr> schedulerOf := (schedulerOf s) \<lparr> lastRunTime := Some now \<rparr> \<rparr>)))"
  by (simp add: loopTest_def)

lemma selection_length:
  assumes "getCasesForAnalysis rt w t store = Inr cs"
  shows "length cs \<le> 20"
  unfolding getCasesForAnalysis_result [OF assms] by simp

lemma loopTest_progress:
  "inFlight (snd (loopTest now i cs s)) = inFlight s
   \<and> (case fst (loopTest now i cs s) of
         None \<Rightarrow> \<not> isProcessing (schedulerOf (snd (loopTest now i cs s)))
       | Some r' \<Rightarrow> schedulerOf (snd (loopTest now i cs s)) = schedulerOf s
                    \<and> r' = AwaitBatch i cs \<and> i < length cs)"
  by (cases "i < length cs")
     (simp_all add: loopTest_next loopTest_end logEvents_simps finallyClause_simps)

lemma resumeRun_progress:
  "inFlight (snd (resumeRun rt w now r s)) = inFlight s
   \<and> (case fst (resumeRun rt w now r s) of
         None \<Rightarrow> \<not> isProcessing (schedulerOf (snd (resumeRun rt w now r s)))
       | Some r' \<Rightarrow> schedulerOf (snd (resumeRun rt w now r s)) = schedulerOf s
                    \<and> awaitsLeft r' < awaitsLeft r)"
proof (cases r)
  case (AwaitSelect t)
  show ?thesis
  proof (cases "getCasesForAnalysis rt w t (caseStore s)")
    case (Inl e)
    show ?thesis
      unfolding AwaitSelect resumeRun_select_failed [OF Inl]
      by (simp add: logEvents_simps finallyClause_simps)
  next
    case (Inr cs)
    show ?thesis
    proof (cases "cs = []")
      case True
      with Inr have "getCasesForAnalysis rt w t (caseStore s) = Inr []"
        by simp
      then show ?thesis
        unfolding AwaitSelect resumeRun_select_empty [OF \<open>getCasesForAnalysis rt w t (caseStore s) = Inr []\<close>]
        by (simp add: logEvents_simps finallyClause_simps)
    next
      case False
      from selection_length [OF Inr] have "awaitsLeft (AwaitBatch 0 cs) < 44"
        by simp
      with loopTest_progress [of now 0 cs s] show ?thesis
        unfolding AwaitSelect resumeRun_select_cases [OF Inr False]
        by (auto split: option.splits)
    qed
  qed
next
  case (AwaitBatch i cs)
  show ?thesis
  proof (cases "i + 5 < length cs")
    case True
    then show ?thesis
      unfolding AwaitBatch resumeRun_batch_more [OF True]
      by (simp add: logEvents_simps settleBatch_simps)
  next
    case False
    with loopTest_progress [of now "i + 5" cs "settleBatch rt w now i cs s"] show ?thesis
      unfolding AwaitBatch resumeRun_batch_last [OF False]
      by (auto simp: settleBatch_simps split: option.splits)
  qed
next
  case (AwaitDelay i cs)
  with loopTest_progress [of now "i + 5" cs s] show ?thesis
    unfolding AwaitDelay resumeRun_delay
    by (auto split: option.splits)
qed

lemma runSchedulerAnalysis_skip:
  "isProcessing (schedulerOf s) \<Longrightarrow> runSchedulerAnalysis now s = logEvents [Skipped] s"
  by (simp add: runSchedulerAnalysis_def)

lemma runSchedulerAnalysis_start:
  "\<not> isProcessing (schedulerOf s) \<Longrightarrow>
   runSchedulerAnalysis now s
     = s \<lparr> schedulerOf := (schedulerOf s) \<lparr> isProcessing := True \<rparr>,
           inFlight := inFlight s @ [AwaitSelect now] \<rparr>"
  by (simp add: runSchedulerAnalysis_def)

lemma resume_idle: "inFlight s = [] \<Longrightarrow> resume rt w now k s = s"
  by (simp add: resume_def)

lemma resume_single:
  assumes "inFlight s = [r]"
  shows "resume rt w now 0 s
           = (snd (resumeRun rt w now r s))
               \<lparr> inFlight := (case fst (resumeRun rt w now r s) of None \<Rightarrow> [] | Some r' \<Rightarrow> [r']) \<rparr>"
  using assms by (simp add: resume_def split: prod.splits option.splits)

lemma exec_Nil: "exec rt w [] s = s"
  by (simp add: exec_def)

lemma exec_Cons: "exec rt w (a # acts) s = exec rt w acts (step rt w a s)"
  by (simp add: exec_def)

lemma exec_resumes_idle:
  "inFlight s = [] \<Longrightarrow> exec rt w (map (Resume k) ts) s = s"
  by (induction ts) (simp_all add: exec_Nil exec_Cons resume_idle)

lemma exec_replicate_idle:
  "inFlight s = [] \<Longrightarrow> exec rt w (replicate n (Resume k now)) s = s"
  by (induction n) (simp_all add: exec_Nil exec_Cons resume_idle)

lemma step_singleRun:
  assumes "singleRun s"
  shows "singleRun (step rt w a s)"
proof (cases a)
  case (Trigger now)
  show ?thesis
  proof (cases "isProcessing (schedulerOf s)")
    case True
    with assms Trigger show ?thesis
      by (simp add: runSchedulerAnalysis_skip singleRun_def logEvents_simps)
  next
    case False
    with assms Trigger show ?thesis
      by (simp add: runSchedulerAnalysis_start singleRun_def)
  qed
next
  case (Resume k now)
  show ?thesis
  proof (cases "inFlight s")
    case Nil
    with assms Resume show ?thesis
      by (simp add: resume_idle)
  next
    case (Cons r rs)
    with assms have one: "inFlight s = [r]" and p: "isProcessing (schedulerOf s)"
      by (simp_all add: singleRun_def)
    show ?thesis
    proof (cases k)
      case 0
      from resumeRun_progress [of rt w now r s] p show ?thesis
        unfolding Resume 0 step.simps resume_single [OF one]
        by (auto simp: singleRun_def split: option.splits)
    next
      case (Suc j)
      with one have "resume rt w now k s = s"
        by (simp add: resume_def)
      with assms Resume show ?thesis
        by simp
    qed
  qed
qed

lemma exec_singleRun: "singleRun s \<Longrightarrow> singleRun (exec rt w acts s)"
proof (induction acts arbitrary: s)
  case Nil
  then show ?case
    by (simp add: exec_Nil)
next
  case (Cons a acts)
  from Cons.IH [OF step_singleRun [OF Cons.prems]] show ?case
    by (simp add: exec_Cons)
qed

lemma run_returns_to_idle:
  assumes "inFlight s = [r]" and "awaitsLeft r \<le> length ts"
  shows "inFlight (exec rt w (map (Resume 0) ts) s) = []
         \<and> \<not> isProcessing (schedulerOf (exec rt w (map (Resume 0) ts) s))"
  using assms
proof (induction ts arbitrary: s r)
  case Nil
  then show ?case
    by (cases r) simp_all
next
  case (Cons t ts)
  let ?s1 = "resume rt w t 0 s"
  note pr = resumeRun_progress [of rt w t r s]
  note rs = resume_single [OF Cons.prems(1), of rt w t]
  show ?case
  proof (cases "fst (resumeRun rt w t r s)")
    case None
    with pr rs have i: "inFlight ?s1 = []" and f: "\<not> isProcessing (schedulerOf ?s1)"
      by simp_all
    from exec_resumes_idle [OF i, of rt w 0 ts] i f show ?thesis
      by (simp add: exec_Cons)
  next
    case (Some r')
    with pr rs have i: "inFlight ?s1 = [r']" and m: "awaitsLeft r' < awaitsLeft r"
      by simp_all
    from m Cons.prems(2) have "awaitsLeft r' \<le> length ts"
      by simp
    from Cons.IH [OF i this] show ?thesis
      by (simp add: exec_Cons)
  qed
qed

lemma selection_failed_aborts:
  assumes "inFlight s = [AwaitSelect t]"
    and "getCasesForAnalysis rt w t (caseStore s) = Inl e"
  shows "resume rt w now 0 s
           = s \<lparr> schedulerOf := (schedulerOf s) \<lparr> isProcessing := False \<rparr>,
                 inFlight := [],
                 eventLog := eventLog s @ [SelectionFailed e] \<rparr>"
  unfolding resume_single [OF assms(1)] resumeRun_select_failed [OF assms(2)]
  by (simp add: finallyClause_def logEvents_def)

lemma loopTest_lastRunTime:
  assumes "lastRunTime (schedulerOf (snd (loopTest now i cs s))) \<noteq> lastRunTime (schedulerOf s)"
  shows "\<not> i < length cs
         \<and> fst (loopTest now i cs s) = None
         \<and> lastRunTime (schedulerOf (snd (loopTest now i cs s))) = Some now
         \<and> last (eventLog (snd (loopTest now i cs s))) = Completed"
proof (cases "i < length cs")
  case True
  with assms show ?thesis
    by (simp add: loopTest_next logEvents_simps)
next
  case False
  then show ?thesis
    by (simp add: loopTest_end logEvents_simps finallyClause_simps)
qed

lemma resumeRun_lastRunTime:
  assumes "lastRunTime (schedulerOf (snd (resumeRun rt w now r s))) \<noteq> lastRunTime (schedulerOf s)"
  shows "(\<exists>i cs. (r = AwaitBatch i cs \<or> r = AwaitDelay i cs) \<and> \<not> i + batchSize < length cs)
         \<and> fst (resumeRun rt w now r s) = None
         \<and> lastRunTime (schedulerOf (snd (resumeRun rt w now r s))) = Some now
         \<and> last (eventLog (snd (resumeRun rt w now r s))) = Completed"
proof (cases r)
  case (AwaitSelect t)
  show ?thesis
  proof (cases "getCasesForAnalysis rt w t (caseStore s)")
    case (Inl e)
    from assms show ?thesis
      unfolding AwaitSelect resumeRun_select_failed [OF Inl]
      by (simp add: logEvents_simps finallyClause_simps)
  next
    case (Inr cs)
    show ?thesis
    proof (cases "cs = []")
      case True
      with Inr have e: "getCasesForAnalysis rt w t (caseStore s) = Inr []"
        by simp
      from assms show ?thesis
        unfolding AwaitSelect resumeRun_select_empty [OF e]
        by (simp add: logEvents_simps finallyClause_simps)
    next
      case False
      from assms have "lastRunTime (schedulerOf (snd (loopTest now 0 cs s)))
                         \<noteq> lastRunTime (schedulerOf s)"
        unfolding AwaitSelect resumeRun_select_cases [OF Inr False] .
      from loopTest_lastRunTime [OF this] False show ?thesis
        by simp
    qed
  qed
next
  case (AwaitBatch i cs)
  show ?thesis
  proof (cases "i + 5 < length cs")
    case True
    from assms show ?thesis
      unfolding AwaitBatch resumeRun_batch_more [OF True]
      by (simp add: logEvents_simps settleBatch_simps)
  next
    case False
    let ?s1 = "settleBatch rt w now i cs s"
    from assms have "lastRunTime (schedulerOf (snd (loopTest now (i + 5) cs ?s1)))
                       \<noteq> lastRunTime (schedulerOf ?s1)"
      unfolding AwaitBatch resumeRun_batch_last [OF False] by (simp add: settleBatch_simps)
    from loopTest_lastRunTime [OF this] False show ?thesis
      unfolding AwaitBatch resumeRun_batch_last [OF False]
      by (simp add: batchSize_def)
  qed
next
  case (AwaitDelay i cs)
  from assms have "lastRunTime (schedulerOf (snd (loopTest now (i + 5) cs s)))
                     \<noteq> lastRunTime (schedulerOf s)"
    unfolding AwaitDelay resumeRun_delay .
  from loopTest_lastRunTime [OF this] show ?thesis
    unfolding AwaitDelay resumeRun_delay
    by (simp add: batchSize_def)
qed

lemma step_lastRunTime:
  assumes "lastRunTime (schedulerOf (step rt w a s)) \<noteq> lastRunTime (schedulerOf s)"
  shows "\<exists>k now i cs. a = Resume k now \<and> k < length (inFlight s)
           \<and> (inFlight s ! k = AwaitBatch i cs \<or> inFlight s ! k = AwaitDelay i cs)
           \<and> \<not> i + batchSize < length cs
           \<and> lastRunTime (schedulerOf (step rt w a s)) = Some now
           \<and> last (eventLog (step rt w a s)) = Completed"
proof (cases a)
  case (Trigger now)
  with assms show ?thesis
    by (simp add: runSchedulerAnalysis_def logEvents_simps split: if_splits)
next
  case (Resume k now)
  show ?thesis
  proof (cases "k < length (inFlight s)")
    case False
    with assms Resume show ?thesis
      by (simp add: resume_def)
  next
    case True
    let ?r = "inFlight s ! k"
    let ?p = "resumeRun rt w now ?r s"
    from True have sch: "schedulerOf (resume rt w now k s) = schedulerOf (snd ?p)"
      and lg: "eventLog (resume rt w now k s) = eventLog (snd ?p)"
      by (simp_all add: resume_def split: prod.splits option.splits)
    from assms have "lastRunTime (schedulerOf (snd ?p)) \<noteq> lastRunTime (schedulerOf s)"
      unfolding Resume step.simps sch .
    from resumeRun_lastRunTime [OF this] True show ?thesis
      unfolding Resume step.simps sch lg by blast
  qed
qed

lemma run_completes_from_batch:
  assumes "inFlight s = [AwaitBatch i cs]" and "i < length cs"
    and "awaitsLeft (AwaitBatch i cs) \<le> n"
  shows "schedulerOf (exec rt w (replicate n (Resume 0 now)) s)
           = (schedulerOf s) \<lparr> lastRunTime := Some now, isProcessing := False \<rparr>
         \<and> caseStore (exec rt w (replicate n (Resume 0 now)) s)
             = fst (runBatches rt w now i cs (caseStore s))
         \<and> inFlight (exec rt w (replicate n (Resume 0 now)) s) = []
         \<and> eventLog (exec rt w (replicate n (Resume 0 now)) s)
             = eventLog s @ tl (snd (runBatches rt w now i cs (caseStore s))) @ [Completed]"
  using assms
proof (induction "length cs - i" arbitrary: i s n rule: less_induct)
  case less
  let ?a = "Resume 0 now"
  let ?b = "take 5 (drop i cs)"
  let ?p = "processCaseBatch rt w now ?b (caseStore s)"
  let ?s1 = "resume rt w now 0 s"
  from less.prems(3) obtain n1 where n: "n = Suc n1"
    by (cases n) simp_all
  have e1: "exec rt w (replicate n ?a) s = exec rt w (replicate n1 ?a) ?s1"
    unfolding n by (simp add: exec_Cons)
  note rs = resume_single [OF less.prems(1), of rt w now]
  note fu = runBatches_fst_unfold [OF less.prems(2), of rt w now "caseStore s"]
  note su = runBatches_unfold [OF less.prems(2), of rt w now "caseStore s"]
  show ?case
  proof (cases "i + 5 < length cs")
    case False
    then have nl: "\<not> i + 5 < length cs"
      by simp
    have s1: "?s1 = (finallyClause (logEvents [Completed]
                 ((settleBatch rt w now i cs s)
                    \<lparr> schedulerOf := (schedulerOf (settleBatch rt w now i cs s))
                                       \<lparr> lastRunTime := Some now \<rparr> \<rparr>)))
               \<lparr> inFlight := [] \<rparr>"
      unfolding rs resumeRun_batch_last [OF nl] loopTest_end [OF nl] by simp
    have i1: "inFlight ?s1 = []"
      unfolding s1 by simp
    have e2: "exec rt w (replicate n ?a) s = ?s1"
      unfolding e1 by (rule exec_replicate_idle [OF i1])
    have r1: "fst (runBatches rt w now i cs (caseStore s)) = fst ?p"
      unfolding fu by (rule runBatches_fst_done [OF nl])
    have r2: "tl (snd (runBatches rt w now i cs (caseStore s))) = snd ?p"
      unfolding su using nl by (simp add: runBatches_done)
    show ?thesis
      unfolding e2 r1 r2 unfolding s1
      by (simp add: finallyClause_simps logEvents_simps settleBatch_simps)
  next
    case True
    let ?s2 = "resume rt w now 0 ?s1"
    let ?i = "i + 5"
    have s1: "?s1 = (logEvents [Delay 2000] (settleBatch rt w now i cs s))
                      \<lparr> inFlight := [AwaitDelay i cs] \<rparr>"
      unfolding rs resumeRun_batch_more [OF True] by simp
    have i1: "inFlight ?s1 = [AwaitDelay i cs]"
      unfolding s1 by simp
    have s2: "?s2 = (logEvents [BatchStart (map caseId (take 5 (drop ?i cs)))] ?s1)
                      \<lparr> inFlight := [AwaitBatch ?i cs] \<rparr>"
      unfolding resume_single [OF i1] resumeRun_delay loopTest_next [OF True] by simp
    have i2: "inFlight ?s2 = [AwaitBatch ?i cs]"
      unfolding s2 by simp
    from less.prems(3) True obtain n2 where n1: "n1 = Suc n2"
      and m: "awaitsLeft (AwaitBatch ?i cs) \<le> n2"
      unfolding n by (cases n1) simp_all
    have e2: "exec rt w (replicate n ?a) s = exec rt w (replicate n2 ?a) ?s2"
      unfolding e1 n1 by (simp add: exec_Cons)
    from True have d: "length cs - ?i < length cs - i"
      by simp
    note ih = less.hyps [OF d i2 True m]
    have c1: "caseStore ?s1 = fst ?p"
      and l1: "eventLog ?s1 = eventLog s @ snd ?p @ [Delay 2000]"
      and h1: "schedulerOf ?s1 = schedulerOf s"
      unfolding s1 by (simp_all add: logEvents_simps settleBatch_simps)
    have c2: "caseStore ?s2 = fst ?p"
      and l2: "eventLog ?s2 = eventLog s @ snd ?p @ [Delay 2000]
                              @ [BatchStart (map caseId (take 5 (drop ?i cs)))]"
      and h2: "schedulerOf ?s2 = schedulerOf s"
      using c1 l1 h1 by (subst s2, simp add: logEvents_simps)+
    have u2: "snd (runBatches rt w now ?i cs (fst ?p))
                = BatchStart (map caseId (take 5 (drop ?i cs)))
                  # tl (snd (runBatches rt w now ?i cs (fst ?p)))"
      unfolding runBatches_unfold [OF True] by simp
    have r2: "tl (snd (runBatches rt w now i cs (caseStore s)))
                = snd ?p @ [Delay 2000] @ BatchStart (map caseId (take 5 (drop ?i cs)))
                  # tl (snd (runBatches rt w now ?i cs (fst ?p)))"
      unfolding su using True u2 by simp
    from ih show ?thesis
      unfolding e2 c2 l2 h2 fu r2 by simp
  qed
qed

lemma run_completes_from_selection:
  assumes "inFlight s = [AwaitSelect t]"
    and "getCasesForAnalysis rt w t (caseStore s) = Inr cs" and "cs \<noteq> []"
    and "awaitsLeft (AwaitSelect t) \<le> n"
  shows "schedulerOf (exec rt w (replicate n (Resume 0 now)) s)
           = (schedulerOf s) \<lparr> lastRunTime := Some now, isProcessing := False \<rparr>
         \<and> caseStore (exec rt w (replicate n (Resume 0 now)) s)
             = fst (runBatches rt w now 0 cs (caseStore s))
         \<and> inFlight (exec rt w (replicate n (Resume 0 now)) s) = []
         \<and> eventLog (exec rt w (replicate n (Resume 0 now)) s)
             = eventLog s @ snd (runBatches rt w now 0 cs (caseStore s)) @ [Completed]"
proof -
  let ?a = "Resume 0 now"
  let ?s1 = "resume rt w now 0 s"
  from assms(3) have p: "0 < length cs"
    by simp
  have s1: "?s1 = (logEvents [BatchStart (map caseId (take 5 (drop 0 cs)))] s)
                    \<lparr> inFlight := [AwaitBatch 0 cs] \<rparr>"
    unfolding resume_single [OF assms(1)] resumeRun_select_cases [OF assms(2,3)]
      loopTest_next [OF p]
    by simp
  have i1: "inFlight ?s1 = [AwaitBatch 0 cs]"
    unfolding s1 by simp
  from assms(4) selection_length [OF assms(2)] obtain n1 where n: "n = Suc n1"
    and m: "awaitsLeft (AwaitBatch 0 cs) \<le> n1"
    by (cases n) simp_all
  have e1: "exec rt w (replicate n ?a) s = exec rt w (replicate n1 ?a) ?s1"
    unfolding n by (simp add: exec_Cons)
  have f1: "caseStore ?s1 = caseStore s"
    and l1: "eventLog ?s1 = eventLog s @ [BatchStart (map caseId (take 5 (drop 0 cs)))]"
    and h1: "schedulerOf ?s1 = schedulerOf s"
    unfolding s1 by (simp_all add: logEvents_simps)
  have u: "snd (runBatches rt w now 0 cs (caseStore s))
             = BatchStart (map caseId (take 5 (drop 0 cs)))
               # tl (snd (runBatches rt w now 0 cs (caseStore s)))"
    unfolding runBatches_unfold [OF p] by simp
  let ?T = "snd (runBatches rt w now 0 cs (caseStore s))"
  let ?B = "BatchStart (map caseId (take 5 (drop 0 cs)))"
  from u have h: "[?B] @ tl ?T = ?T"
    by simp
  have "(eventLog s @ [?B]) @ tl ?T @ [Completed] = eventLog s @ ([?B] @ tl ?T) @ [Completed]"
    by simp
  also have "\<dots> = eventLog s @ ?T @ [Completed]"
    by (simp only: h)
  finally have q: "(eventLog s @ [?B]) @ tl ?T @ [Completed] = eventLog s @ ?T @ [Completed]" .
  from run_completes_from_batch [OF i1 p m, of rt w now] show ?thesis
    unfolding e1 f1 l1 h1 q .
qed

text \<open>
  C8. A call of \<open>runSchedulerAnalysis\<close> while the flag \<open>isProcessing\<close> is set only
  logs that it is skipped: it starts no run and changes neither the scheduler nor the
  store. A call while the flag is clear sets the flag and starts a run, which is
  suspended at the selection. From a service at rest, whatever triggers and resumptions
  follow in whatever order, at most one run is suspended at any time, and the flag is set
  exactly while one is. A suspended run ends after finitely many resumptions, whatever
  the selection, the scoring calls and the saves do, and then the flag is clear. A run
  whose selection fails ends at once and leaves \<open>lastRunTime\<close> and the store as they
  were. \<open>lastRunTime\<close> changes only in the step in which a run passes its last batch,
  and that step logs the completion. A run that is resumed at one time \<open>now\<close>
  throughout passes through the batches of the \<open>for\<close> loop: it leaves the store and
  the trace of \<open>runBatches\<close>, sets \<open>lastRunTime\<close> to \<open>now\<close> and clears the
  flag.
\<close>

theorem run_state_machine:
  "(isProcessing (schedulerOf s)
      \<longrightarrow> runSchedulerAnalysis now s = s \<lparr> eventLog := eventLog s @ [Skipped] \<rparr>)
   \<and> (\<not> isProcessing (schedulerOf s)
        \<longrightarrow> isProcessing (schedulerOf (runSchedulerAnalysis now s))
            \<and> inFlight (runSchedulerAnalysis now s) = inFlight s @ [AwaitSelect now]
            \<and> caseStore (runSchedulerAnalysis now s) = caseStore s
            \<and> lastRunTime (schedulerOf (runSchedulerAnalysis now s))
                = lastRunTime (schedulerOf s))
   \<and> (inFlight s = [] \<and> \<not> isProcessing (schedulerOf s)
        \<longrightarrow> length (inFlight (exec rt w acts s)) \<le> 1
            \<and> isProcessing (schedulerOf (exec rt w acts s))
                = (inFlight (exec rt w acts s) \<noteq> []))
   \<and> (inFlight s = [r] \<and> awaitsLeft r \<le> length ts
        \<longrightarrow> inFlight (exec rt w (map (Resume 0) ts) s) = []
            \<and> \<not> isProcessing (schedulerOf (exec rt w (map (Resume 0) ts) s)))
   \<and> (inFlight s = [AwaitSelect t] \<and> getCasesForAnalysis rt w t (caseStore s) = Inl e
        \<longrightarrow> resume rt w now 0 s
              = s \<lparr> schedulerOf := (schedulerOf s) \<lparr> isProcessing := False \<rparr>,
                    inFlight := [],
                    eventLog := eventLog s @ [SelectionFailed e] \<rparr>)
   \<and> (lastRunTime (schedulerOf (step rt w a s)) \<noteq> lastRunTime (schedulerOf s)
        \<longrightarrow> (\<exists>k now i cs. a = Resume k now \<and> k < length (inFlight s)
               \<and> (inFlight s ! k = AwaitBatch i cs \<or> inFlight s ! k = AwaitDelay i cs)
               \<and> \<not> i + batchSize < length cs
               \<and> lastRunTime (schedulerOf (step rt w a s)) = Some now
               \<and> last (eventLog (step rt w a s)) = Completed))
   \<and> (inFlight s = [AwaitBatch i cs] \<and> i < length cs \<and> awaitsLeft (AwaitBatch i cs) \<le> n
        \<longrightarrow> schedulerOf (exec rt w (replicate n (Resume 0 now)) s)
              = (schedulerOf s) \<lparr> lastRunTime := Some now, isProcessing := False \<rparr>
            \<and> caseStore (exec rt w (replicate n (Resume 0 now)) s)
                = fst (runBatches rt w now i cs (caseStore s))
            \<and> inFlight (exec rt w (replicate n (Resume 0 now)) s) = []
            \<and> eventLog (exec rt w (replicate n (Resume 0 now)) s)
                = eventLog s @ tl (snd (runBatches rt w now i cs (caseStore s))) @ [Completed])
   \<and> (inFlight s = [AwaitSelect t] \<and> getCasesForAnalysis rt w t (caseStore s) = Inr cs
        \<and> cs \<noteq> [] \<and> awaitsLeft (AwaitSelect t) \<le> n
        \<longrightarrow> schedulerOf (exec rt w (replicate n (Resume 0 now)) s)
              = (schedulerOf s) \<lparr> lastRunTime := Some now, isProcessing := False \<rparr>
            \<and> caseStore (exec rt w (replicate n (Resume 0 now)) s)
                = fst (runBatches rt w now 0 cs (caseStore s))
            \<and> inFlight (exec rt w (replicate n (Resume 0 now)) s) = []
            \<and> eventLog (exec rt w (replicate n (Resume 0 now)) s)
                = eventLog s @ snd (runBatches rt w now 0 cs (caseStore s)) @ [Completed])"
proof -
  have c1: "isProcessing (schedulerOf s)
      \<longrightarrow> runSchedulerAnalysis now s = s \<lparr> eventLog := eventLog s @ [Skipped] \<rparr>"
    by (simp add: runSchedulerAnalysis_skip logEvents_def)
  have c2: "\<not> isProcessing (schedulerOf s)
        \<longrightarrow> isProcessing (schedulerOf (runSchedulerAnalysis now s))
            \<and> inFlight (runSchedulerAnalysis now s) = inFlight s @ [AwaitSelect now]
            \<and> caseStore (runSchedulerAnalysis now s) = caseStore s
            \<and> lastRunTime (schedulerOf (runSchedulerAnalysis now s))
                = lastRunTime (schedulerOf s)"
    by (simp add: runSchedulerAnalysis_start)
  have c3: "inFlight s = [] \<and> \<not> isProcessing (schedulerOf s)
        \<longrightarrow> length (inFlight (exec rt w acts s)) \<le> 1
            \<and> isProcessing (schedulerOf (exec rt w acts s))
                = (inFlight (exec rt w acts s) \<noteq> [])"
  proof
    assume "inFlight s = [] \<and> \<not> isProcessing (schedulerOf s)"
    then have "singleRun s"
      by (simp add: singleRun_def)
    from exec_singleRun [OF this, of rt w acts]
    show "length (inFlight (exec rt w acts s)) \<le> 1
            \<and> isProcessing (schedulerOf (exec rt w acts s))
                = (inFlight (exec rt w acts s) \<noteq> [])"
      by (simp add: singleRun_def)
  qed
  have c4: "inFlight s = [r] \<and> awaitsLeft r \<le> length ts
        \<longrightarrow> inFlight (exec rt w (map (Resume 0) ts) s) = []
            \<and> \<not> isProcessing (schedulerOf (exec rt w (map (Resume 0) ts) s))"
    using run_returns_to_idle [of s r ts rt w] by blast
  have c5: "inFlight s = [AwaitSelect t] \<and> getCasesForAnalysis rt w t (caseStore s) = Inl e
        \<longrightarrow> resume rt w now 0 s
              = s \<lparr> schedulerOf := (schedulerOf s) \<lparr> isProcessing := False \<rparr>,
                    inFlight := [],
                    eventLog := eventLog s @ [SelectionFailed e] \<rparr>"
    using selection_failed_aborts [of s t rt w e now] by blast
  have c6: "lastRunTime (schedulerOf (step rt w a s)) \<noteq> lastRunTime (schedulerOf s)
        \<longrightarrow> (\<exists>k now i cs. a = Resume k now \<and> k < length (inFlight s)
               \<and> (inFlight s ! k = AwaitBatch i cs \<or> inFlight s ! k = AwaitDelay i cs)
               \<and> \<not> i + batchSize < length cs
               \<and> lastRunTime (schedulerOf (step rt w a s)) = Some now
               \<and> last (eventLog (step rt w a s)) = Completed)"
    using step_lastRunTime [of rt w a s] by blast
  have c7: "inFlight s = [AwaitBatch i cs] \<and> i < length cs \<and> awaitsLeft (AwaitBatch i cs) \<le> n
        \<longrightarrow> schedulerOf (exec rt w (replicate n (Resume 0 now)) s)
              = (schedulerOf s) \<lparr> lastRunTime := Some now, isProcessing := False \<rparr>
            \<and> caseStore (exec rt w (replicate n (Resume 0 now)) s)
                = fst (runBatches rt w now i cs (caseStore s))
            \<and> inFlight (exec rt w (replicate n (Resume 0 now)) s) = []
            \<and> eventLog (exec rt w (replicate n (Resume 0 now)) s)
                = eventLog s @ tl (snd (runBatches rt w now i cs (caseStore s))) @ [Completed]"
    using run_completes_from_batch [of s i cs n rt w now] by blast
  have c8: "inFlight s = [AwaitSelect t] \<and> getCasesForAnalysis rt w t (caseStore s) = Inr cs
        \<and> cs \<noteq> [] \<and> awaitsLeft (AwaitSelect t) \<le> n
        \<longrightarrow> schedulerOf (exec rt w (replicate n (Resume 0 now)) s)
              = (schedulerOf s) \<lparr> lastRunTime := Some now, isProcessing := False \<rparr>
            \<and> caseStore (exec rt w (replicate n (Resume 0 now)) s)
                = fst (runBatches rt w now 0 cs (caseStore s))
            \<and> inFlight (exec rt w (replicate n (Resume 0 now)) s) = []
            \<and> eventLog (exec rt w (replicate n (Resume 0 now)) s)
                = eventLog s @ snd (runBatches rt w now 0 cs (caseStore s)) @ [Completed]"
    using run_completes_from_selection [of s t rt w cs n now] by blast
  show ?thesis
    by (intro conjI) (fact c1 c2 c3 c4 c5 c6 c7 c8)+
qed

lemma sevenCases_run:
  "snd (runBatches sampleRuntime flakyWorld sampleNow 0 sevenCases sevenCases)
     = [BatchStart [1, 2, 3, 4, 5],
        CaseDone 1 (Failed ValidationError), CaseDone 2 (Failed ValidationError),
        CaseDone 3 (Failed NetworkError), CaseDone 4 (Failed ValidationError),
        CaseDone 5 (Failed ValidationError),
        Delay 2000,
        BatchStart [6, 7],
        CaseDone 6 (Failed ValidationError), CaseDone 7 (Failed ValidationError)]"
  "fst (runBatches sampleRuntime flakyWorld sampleNow 0 sevenCases sevenCases) = sevenCases"
proof -
  from runBatches_events [of sampleRuntime flakyWorld sampleNow 0 sevenCases sevenCases sevenCases]
  show "snd (runBatches sampleRuntime flakyWorld sampleNow 0 sevenCases sevenCases)
     = [BatchStart [1, 2, 3, 4, 5],
        CaseDone 1 (Failed ValidationError), CaseDone 2 (Failed ValidationError),
        CaseDone 3 (Failed NetworkError), CaseDone 4 (Failed ValidationError),
        CaseDone 5 (Failed ValidationError),
        Delay 2000,
        BatchStart [6, 7],
        CaseDone 6 (Failed ValidationError), CaseDone 7 (Failed ValidationError)]"
    by (simp add: sevenCases_chunks sevenCases_outcome)
  from runBatches_store [of sampleRuntime flakyWorld sampleNow 0 sevenCases sevenCases]
  show "fst (runBatches sampleRuntime flakyWorld sampleNow 0 sevenCases sevenCases) = sevenCases"
    by (simp add: sevenCases_def analyzeSingleCase_fails)
qed

lemma freshCase_selected:
  "getCasesForAnalysis lenientRuntime sampleWorld sampleNow [freshCase] = Inr [freshCase]"
proof -
  have c: "castOk lenientRuntime (analysisQuery sampleNow)"
    by (simp add: castOk_analysisQuery lenientRuntime_def)
  from c freshCase_matches [of lenientRuntime] show ?thesis
    by (simp add: getCasesForAnalysis_def Case_find_def bindE_def sampleWorld_def)
qed

theorem run_state_machine_witness:
  "exec sampleRuntime sampleWorld [Trigger sampleNow] (idle [sampleCase])
     = \<lparr> schedulerOf = \<lparr> isProcessing = True, lastRunTime = None \<rparr>,
         caseStore = [sampleCase], inFlight = [AwaitSelect sampleNow], eventLog = [] \<rparr>
   \<and> exec sampleRuntime sampleWorld [Trigger sampleNow, Trigger (sampleNow + 1000)]
        (idle [sampleCase])
       = \<lparr> schedulerOf = \<lparr> isProcessing = True, lastRunTime = None \<rparr>,
           caseStore = [sampleCase], inFlight = [AwaitSelect sampleNow],
           eventLog = [Skipped] \<rparr>
   \<and> getCasesForAnalysis sampleRuntime sampleWorld sampleNow [sampleCase] = Inl CastError
   \<and> exec sampleRuntime sampleWorld
        [Trigger sampleNow, Trigger (sampleNow + 1000), Resume 0 (sampleNow + 2000)]
        (idle [sampleCase])
       = \<lparr> schedulerOf = \<lparr> isProcessing = False, lastRunTime = None \<rparr>,
           caseStore = [sampleCase], inFlight = [],
           eventLog = [Skipped, SelectionFailed CastError] \<rparr>
   \<and> isProcessing (schedulerOf midRun)
   \<and> schedulerOf (exec sampleRuntime flakyWorld (replicate 17 (Resume 0 sampleNow)) midRun)
       = \<lparr> isProcessing = False, lastRunTime = Some sampleNow \<rparr>
   \<and> caseStore (exec sampleRuntime flakyWorld (replicate 17 (Resume 0 sampleNow)) midRun)
       = sevenCases
   \<and> inFlight (exec sampleRuntime flakyWorld (replicate 17 (Resume 0 sampleNow)) midRun) = []
   \<and> eventLog (exec sampleRuntime flakyWorld (replicate 17 (Resume 0 sampleNow)) midRun)
       = [BatchStart [1, 2, 3, 4, 5],
          CaseDone 1 (Failed ValidationError), CaseDone 2 (Failed ValidationError),
          CaseDone 3 (Failed NetworkError), CaseDone 4 (Failed ValidationError),
          CaseDone 5 (Failed ValidationError),
          Delay 2000,
          BatchStart [6, 7],
          CaseDone 6 (Failed ValidationError), CaseDone 7 (Failed ValidationError),
          Completed]
   \<and> getCasesForAnalysis lenientRuntime sampleWorld sampleNow [freshCase] = Inr [freshCase]
   \<and> schedulerOf (exec lenientRuntime sampleWorld
        (Trigger sampleNow # replicate 44 (Resume 0 (sampleNow + 1000))) (idle [freshCase]))
       = \<lparr> isProcessing = False, lastRunTime = Some (sampleNow + 1000) \<rparr>
   \<and> attemptsOf (eventLog (exec lenientRuntime sampleWorld
        (Trigger sampleNow # replicate 44 (Resume 0 (sampleNow + 1000))) (idle [freshCase])))
       = [4]"
proof -
  let ?s1 = "\<lparr> schedulerOf = \<lparr> isProcessing = True, lastRunTime = None \<rparr>,
         caseStore = [sampleCase], inFlight = [AwaitSelect sampleNow], eventLog = [] \<rparr>"
  let ?s2 = "\<lparr> schedulerOf = \<lparr> isProcessing = True, lastRunTime = None \<rparr>,
         caseStore = [sampleCase], inFlight = [AwaitSelect sampleNow],
         eventLog = [Skipped] \<rparr>"
  let ?s3 = "\<lparr> schedulerOf = \<lparr> isProcessing = False, lastRunTime = None \<rparr>,
         caseStore = [sampleCase], inFlight = [],
         eventLog = [Skipped, SelectionFailed CastError] \<rparr>"
  have a1: "runSchedulerAnalysis sampleNow (idle [sampleCase]) = ?s1"
    by (simp add: runSchedulerAnalysis_def idle_def)
  from run_state_machine [of ?s1 "sampleNow + 1000"]
  have a2: "runSchedulerAnalysis (sampleNow + 1000) ?s1 = ?s2"
    by simp
  have d: "Date_parse sampleRuntime ''$updatedAt'' = None"
    by (simp add: sampleRuntime_def)
  note r = getCasesForAnalysis_rejected [OF d, of sampleWorld sampleNow "[sampleCase]"]
  from run_state_machine
         [of ?s2 "sampleNow + 2000" sampleRuntime sampleWorld "[]" "AwaitSelect sampleNow" "[]"
            sampleNow CastError]
       r
  have a3: "resume sampleRuntime sampleWorld (sampleNow + 2000) 0 ?s2 = ?s3"
    by simp
  have m: "inFlight midRun = [AwaitBatch 0 sevenCases]" "0 < length sevenCases"
      "awaitsLeft (AwaitBatch 0 sevenCases) \<le> 17" "caseStore midRun = sevenCases"
      "eventLog midRun = [BatchStart [1, 2, 3, 4, 5]]"
      "schedulerOf midRun = \<lparr> isProcessing = True, lastRunTime = None \<rparr>"
    by (simp_all add: midRun_def sevenCases_ids)
  note b = run_state_machine
         [of midRun sampleNow sampleRuntime flakyWorld "[]" "AwaitBatch 0 sevenCases" "[]"
            sampleNow CastError "Trigger sampleNow" 0 sevenCases 17]
  from b m
  have b1: "schedulerOf (exec sampleRuntime flakyWorld (replicate 17 (Resume 0 sampleNow)) midRun)
              = \<lparr> isProcessing = False, lastRunTime = Some sampleNow \<rparr>"
    and b2: "caseStore (exec sampleRuntime flakyWorld (replicate 17 (Resume 0 sampleNow)) midRun)
              = sevenCases"
    and b3: "inFlight (exec sampleRuntime flakyWorld (replicate 17 (Resume 0 sampleNow)) midRun)
              = []"
    and b4: "eventLog (exec sampleRuntime flakyWorld (replicate 17 (Resume 0 sampleNow)) midRun)
       = [BatchStart [1, 2, 3, 4, 5],
          CaseDone 1 (Failed ValidationError), CaseDone 2 (Failed ValidationError),
          CaseDone 3 (Failed NetworkError), CaseDone 4 (Failed ValidationError),
          CaseDone 5 (Failed ValidationError),
          Delay 2000,
          BatchStart [6, 7],
          CaseDone 6 (Failed ValidationError), CaseDone 7 (Failed ValidationError),
          Completed]"
    by (simp_all add: sevenCases_run)
  let ?f1 = "runSchedulerAnalysis sampleNow (idle [freshCase])"
  have f: "inFlight ?f1 = [AwaitSelect sampleNow]" "caseStore ?f1 = [freshCase]"
      "eventLog ?f1 = []" "schedulerOf ?f1 = \<lparr> isProcessing = True, lastRunTime = None \<rparr>"
    by (simp_all add: runSchedulerAnalysis_def idle_def)
  note c = run_state_machine
         [of ?f1 "sampleNow + 1000" lenientRuntime sampleWorld "[]" "AwaitSelect sampleNow" "[]"
            sampleNow CastError "Trigger sampleNow" 0 "[freshCase]" 44]
  have i4: "caseId freshCase = 4"
    by (simp add: freshCase_def)
  from runBatches_trace [of lenientRuntime sampleWorld "sampleNow + 1000" 0 "[freshCase]"
         "[freshCase]"]
  have at: "attemptsOf (snd (runBatches lenientRuntime sampleWorld (sampleNow + 1000) 0
              [freshCase] [freshCase])) = [4]"
    by (simp add: i4)
  from c f freshCase_selected
  have c1: "schedulerOf (exec lenientRuntime sampleWorld
              (replicate 44 (Resume 0 (sampleNow + 1000))) ?f1)
              = \<lparr> isProcessing = False, lastRunTime = Some (sampleNow + 1000) \<rparr>"
    and c2: "eventLog (exec lenientRuntime sampleWorld
              (replicate 44 (Resume 0 (sampleNow + 1000))) ?f1)
              = snd (runBatches lenientRuntime sampleWorld (sampleNow + 1000) 0
                       [freshCase] [freshCase]) @ [Completed]"
    by simp_all
  from c2 at have c3: "attemptsOf (eventLog (exec lenientRuntime sampleWorld
              (replicate 44 (Resume 0 (sampleNow + 1000))) ?f1)) = [4]"
    by (simp add: attemptsOf_simps)
  have p: "isProcessing (schedulerOf midRun)"
    by (simp add: midRun_def)
  from a1 a2 a3 r p b1 b2 b3 b4 freshCase_selected c1 c3 show ?thesis
    by (simp add: exec_Cons exec_Nil)
qed

end
